theory Spec2Isabelle
  imports Complex_Main "HOL-Library.AList" "HOL-Library.Sublist" "HOL-Library.Multiset"
begin

section \<open>The System Performance Monitor of Main.py\<close>

text \<open>
  The monitor is one Python module: a collection loop over operating-system counters, a CSV
  recorder and a console view. The embedding below follows the module function by function.
  Python integers are \<^typ>\<open>int\<close>; a Python float is modelled by the rational number
  (\<^typ>\<open>rat\<close>) that it denotes, and where \<open>get_size\<close> turns an integer into a float the
  rounding to a double and the \<open>OverflowError\<close> of the conversion are modelled explicitly;
  text is \<^typ>\<open>string\<close>. Values that the program reads from the operating system
  (counters, clock, sensors, the process table) are inputs of the model.
\<close>

subsection \<open>Configuration\<close>

definition LOG_FILE :: string where
  "LOG_FILE = ''system_performance_log.csv''"

definition LOG_INTERVAL_SECONDS :: int where
  "LOG_INTERVAL_SECONDS = 3"

definition TOP_N_PROCESSES :: nat where
  "TOP_N_PROCESSES = 5"

text \<open>
  The functions that depend on \<open>TOP_N_PROCESSES\<close> take it as their first argument \<open>n\<close>,
  so that every statement below holds for each configured value and not only for 5.
\<close>

subsection \<open>Python values, exceptions and text formatting\<close>

datatype pyval = IntV int | FloatV rat | StrV string

datatype exn =
    AttributeError | IndexError | KeyError | TypeError | OverflowError
  | NoSuchProcess | AccessDenied | ZombieProcess

definition digit_char :: "nat \<Rightarrow> char" where
  "digit_char d = ''0123456789'' ! (d mod 10)"

text \<open>\<open>str(i)\<close> for a natural number and for an integer: decimal, no leading zeros.\<close>

fun str_nat :: "nat \<Rightarrow> string" where
  "str_nat n = (if n < 10 then [digit_char n] else str_nat (n div 10) @ [digit_char (n mod 10)])"

declare str_nat.simps [simp del]

definition str_int :: "int \<Rightarrow> string" where
  "str_int i = (if i < 0 then ''-'' @ str_nat (nat (- i)) else str_nat (nat i))"

text \<open>The format specification \<open>:<w\<close>: left-justified in a field of at least \<open>w\<close> characters.\<close>

definition ljust :: "nat \<Rightarrow> string \<Rightarrow> string" where
  "ljust w s = s @ replicate (w - length s) (CHR '' '')"

text \<open>
  The format specification \<open>:.2f\<close>: the value rounded to two decimals, ties to the even
  neighbour (the exact binary value decides, as in CPython), the sign kept even when the
  rounded magnitude is zero.
\<close>

definition round_half_even :: "rat \<Rightarrow> int" where
  "round_half_even x =
     (let m = \<lfloor>x\<rfloor>; r = x - of_int m
      in if r < 1 / 2 then m else if 1 / 2 < r then m + 1 else if even m then m else m + 1)"

definition fmt2f :: "rat \<Rightarrow> string" where
  "fmt2f x =
     (let n = nat (round_half_even (\<bar>x\<bar> * 100))
      in (if x < 0 then ''-'' else '''') @ str_nat (n div 100) @ ''.'' @
         [digit_char (n mod 100 div 10), digit_char (n mod 10)])"

definition is_digit :: "char \<Rightarrow> bool" where
  "is_digit c = (c \<in> set ''0123456789'')"

text \<open>A rendering with two decimal places: digits, a point, two digits.\<close>

definition two_decimals :: "string \<Rightarrow> bool" where
  "two_decimals s =
     (case rev s of
        d2 # d1 # dot # ds \<Rightarrow>
          is_digit d2 \<and> is_digit d1 \<and> dot = CHR ''.'' \<and> ds \<noteq> [] \<and> list_all is_digit ds
      | _ \<Rightarrow> False)"

subsection \<open>Numbers: integers and floats\<close>

text \<open>
  \<open>get_size\<close> receives a Python \<open>int\<close> and turns it into a \<open>float\<close> by its first division.
  A float value is modelled by the rational number it denotes. Three operations of the
  program produce or use floats from integers, and each is modelled with its rounding:

  \<^item> \<open>int / int\<close> (true division) returns the double nearest to the exact quotient, ties to
    the even significand, and raises \<open>OverflowError\<close> when that double would not be finite.
    The only divisor of the program is \<open>factor = 1024\<close>, a power of two, so the quotient is the
    dividend rounded to 53 significant bits, divided by 1024.
  \<^item> \<open>float / int\<close> with a float of at least 1024 and the divisor 1024 only lowers the binary
    exponent by 10: it is exact.
  \<^item> the format \<open>:.2f\<close> converts an \<open>int\<close> to the nearest double first (\<open>OverflowError\<close> when
    there is none) and renders the exact value of the double, rounded to two decimals.
\<close>

text \<open>\<open>int.bit_length()\<close>: the number of binary digits of a natural number.\<close>

fun bit_length :: "nat \<Rightarrow> nat" where
  "bit_length n = (if n = 0 then 0 else Suc (bit_length (n div 2)))"

declare bit_length.simps [simp del]

text \<open>
  A natural number rounded to 53 significant bits, ties to the even significand: the
  integer nearest to \<open>n\<close> that a double can hold. With \<open>s\<close> surplus bits, \<open>q\<close> is the
  significand and \<open>r\<close> the part cut off.
\<close>

definition round53 :: "nat \<Rightarrow> nat" where
  "round53 n =
     (let s = bit_length n - 53; q = n div 2 ^ s; r = n mod 2 ^ s
      in if 2 * r < 2 ^ s then q * 2 ^ s
         else if 2 ^ s < 2 * r then (q + 1) * 2 ^ s
         else if even q then q * 2 ^ s else (q + 1) * 2 ^ s)"

text \<open>The value of the variable \<open>bytes\<close>: an \<open>int\<close> at first, a \<open>float\<close> after a division.\<close>

datatype number = PyInt int | PyFloat rat

definition num_value :: "number \<Rightarrow> rat" where
  "num_value x = (case x of PyInt i \<Rightarrow> of_int i | PyFloat y \<Rightarrow> y)"

text \<open>\<open>float(x)\<close>, as the format \<open>:.2f\<close> applies it to its argument.\<close>

definition to_float :: "number \<Rightarrow> exn + rat" where
  "to_float x =
     (case x of
        PyFloat y \<Rightarrow> Inr y
      | PyInt i \<Rightarrow>
          (let v = of_nat (round53 (nat \<bar>i\<bar>))
           in if 2 ^ 1024 \<le> v then Inl OverflowError else Inr (if i < 0 then - v else v)))"

text \<open>\<open>bytes / factor\<close> with \<open>factor = 1024\<close>.\<close>

definition div_factor :: "number \<Rightarrow> exn + rat" where
  "div_factor x =
     (case x of
        PyFloat y \<Rightarrow> Inr (y / 1024)
      | PyInt i \<Rightarrow>
          (let v = of_nat (round53 (nat \<bar>i\<bar>)) / 1024
           in if 2 ^ 1024 \<le> v then Inl OverflowError else Inr (if i < 0 then - v else v)))"

text \<open>The replacement field \<open>{bytes:.2f}\<close>.\<close>

definition format_2f :: "number \<Rightarrow> exn + string" where
  "format_2f x = (case to_float x of Inl e \<Rightarrow> Inl e | Inr y \<Rightarrow> Inr (fmt2f y))"

subsection \<open>\<open>get_size\<close>\<close>

definition size_units :: "string list" where
  "size_units = ['''', ''K'', ''M'', ''G'', ''T'', ''P'']"

text \<open>
  The \<open>for unit in [...]\<close> loop: return inside the loop when the value is below the factor,
  divide otherwise; the statement after the loop renders what is left with the unit \<open>P\<close>.
  An exception raised by the division or by the format leaves the function.
\<close>

fun get_size_loop :: "number \<Rightarrow> string list \<Rightarrow> string \<Rightarrow> exn + string" where
  "get_size_loop b [] sfx =
     (case format_2f b of Inl e \<Rightarrow> Inl e | Inr s \<Rightarrow> Inr (s @ ''P'' @ sfx))"
| "get_size_loop b (u # us) sfx =
     (if num_value b < 1024
      then (case format_2f b of Inl e \<Rightarrow> Inl e | Inr s \<Rightarrow> Inr (s @ u @ sfx))
      else (case div_factor b of
              Inl e \<Rightarrow> Inl e
            | Inr x \<Rightarrow> get_size_loop (PyFloat x) us sfx))"

text \<open>Every call of the program passes an \<open>int\<close>: a byte count or a difference of two.\<close>

definition get_size :: "int \<Rightarrow> string \<Rightarrow> exn + string" where
  "get_size b sfx = get_size_loop (PyInt b) size_units sfx"

subsection \<open>Dictionaries\<close>

text \<open>
  A Python \<open>dict\<close> keeps its keys in insertion order, and assigning to a key that is already
  present keeps the key's position: an association list with in-place update.
\<close>

type_synonym 'v dict = "(string \<times> 'v) list"

definition dict_set :: "string \<Rightarrow> 'v \<Rightarrow> 'v dict \<Rightarrow> 'v dict" where
  "dict_set k v d = AList.update k v d"

definition dict_update :: "'v dict \<Rightarrow> 'v dict \<Rightarrow> 'v dict" where
  "dict_update d items = foldl (\<lambda>acc (k, v). dict_set k v acc) d items"

definition dict_get :: "'v dict \<Rightarrow> string \<Rightarrow> 'v \<Rightarrow> 'v" where
  "dict_get d k dflt = (case map_of d k of None \<Rightarrow> dflt | Some v \<Rightarrow> v)"

subsection \<open>\<open>setup_csv\<close> and \<open>log_to_csv\<close>\<close>

definition system_columns :: "string list" where
  "system_columns =
     [''timestamp'', ''cpu_usage_total'', ''cpu_usage_per_core'', ''memory_usage_percent'',
      ''memory_used'', ''memory_available'', ''memory_cached'', ''disk_usage_percent'',
      ''disk_io_read_bytes_s'', ''disk_io_write_bytes_s'', ''network_io_sent_mbps'',
      ''network_io_recv_mbps'', ''system_uptime_seconds'', ''system_temp_celsius'']"

definition categories :: "string list" where
  "categories = [''cpu'', ''memory'', ''disk_io'']"

definition process_fields :: "string list" where
  "process_fields =
     [''pid'', ''name'', ''cpu_percent'', ''mem_rss'', ''mem_vms'', ''disk_read_bytes'',
      ''disk_write_bytes'', ''execution_time_s'']"

text \<open>The f-string \<open>top_{category}_{i}_{field}\<close>.\<close>

definition slot_key :: "string \<Rightarrow> nat \<Rightarrow> string \<Rightarrow> string" where
  "slot_key category i field = ''top_'' @ category @ ''_'' @ str_nat i @ ''_'' @ field"

text \<open>The eight names that one \<open>header.extend([...])\<close> adds.\<close>

definition slot_columns :: "string \<Rightarrow> nat \<Rightarrow> string list" where
  "slot_columns category i =
     [slot_key category i ''pid'', slot_key category i ''name'',
      slot_key category i ''cpu_percent'', slot_key category i ''mem_rss'',
      slot_key category i ''mem_vms'', slot_key category i ''disk_read_bytes'',
      slot_key category i ''disk_write_bytes'', slot_key category i ''execution_time_s'']"

text \<open>The two nested \<open>for\<close> loops of \<open>setup_csv\<close>, over the categories and over \<open>range(1, n + 1)\<close>.\<close>

definition header :: "nat \<Rightarrow> string list" where
  "header n =
     foldl (\<lambda>h category. foldl (\<lambda>h' i. h' @ slot_columns category i) h [1..<n + 1])
       system_columns categories"

text \<open>
  A CSV file is the list of its rows, a row the list of its cells; the file system maps a
  path to the file there. \<open>os.path.exists\<close> is definedness of the path; opening with mode
  \<open>w\<close> starts from no rows, opening with mode \<open>a\<close> keeps the rows present (none when the
  file is new). \<open>DictWriter.writerow\<close> with \<open>fieldnames = data.keys()\<close> writes the values in
  key order.
\<close>

type_synonym csv_file = "pyval list list"

type_synonym filesystem = "string \<Rightarrow> csv_file option"

definition setup_csv :: "nat \<Rightarrow> filesystem \<Rightarrow> filesystem" where
  "setup_csv n fs =
     (if fs LOG_FILE \<noteq> None then fs else fs(LOG_FILE \<mapsto> [] @ [map StrV (header n)]))"

definition log_to_csv :: "pyval dict \<Rightarrow> filesystem \<Rightarrow> filesystem" where
  "log_to_csv data fs =
     fs(LOG_FILE \<mapsto> (case fs LOG_FILE of None \<Rightarrow> [] | Some rows \<Rightarrow> rows) @ [map snd data])"

subsection \<open>\<open>get_io_rates\<close>\<close>

record io_counters =
  read_bytes :: int
  write_bytes :: int



subsection \<open>\<open>get_all_processes_info\<close>\<close>

record memory_info =
  rss :: int
  vms :: int

text \<open>
  What \<open>proc.info\<close> holds for one process. \<open>process_iter\<close> fills it before the loop body
  runs, and puts \<open>None\<close> where the read of an attribute was denied or the process is a
  zombie: \<open>memory_info\<close> and \<open>io_counters\<close> may be \<open>None\<close>. The program tests the second
  for truth and reads attributes of the first unconditionally, which raises
  \<open>AttributeError\<close> on \<open>None\<close>.
\<close>

record pinfo =
  info_pid :: int
  info_name :: string
  info_cpu_percent :: rat
  info_memory_info :: "memory_info option"
  info_io_counters :: "io_counters option"
  info_create_time :: rat

text \<open>The dictionary appended for one process; its keys are fixed, so it is a record.\<close>

record snapshot =
  pid :: int
  name :: string
  cpu_percent :: rat
  mem_rss :: int
  mem_vms :: int
  disk_read_bytes :: int
  disk_write_bytes :: int
  disk_io_total :: int
  execution_time_s :: rat

text \<open>
  The body of the \<open>try\<close> for one process. An entry of the process table is the \<open>info\<close> of
  the process (\<open>Inr\<close>), or an exception raised on reading it (\<open>Inl\<close>), should the library
  raise one.
\<close>

definition proc_entry :: "rat \<Rightarrow> exn + pinfo \<Rightarrow> exn + snapshot" where
  "proc_entry current_time proc =
     (case proc of
        Inl e \<Rightarrow> Inl e
      | Inr info \<Rightarrow>
          (let total = (case info_io_counters info of
                          Some io \<Rightarrow> read_bytes io + write_bytes io | None \<Rightarrow> 0)
           in case info_memory_info info of
                None \<Rightarrow> Inl AttributeError
              | Some mi \<Rightarrow>
                  Inr \<lparr>pid = info_pid info, name = info_name info,
                       cpu_percent = info_cpu_percent info,
                       mem_rss = rss mi, mem_vms = vms mi,
                       disk_read_bytes =
                         (case info_io_counters info of Some io \<Rightarrow> read_bytes io | None \<Rightarrow> 0),
                       disk_write_bytes =
                         (case info_io_counters info of Some io \<Rightarrow> write_bytes io | None \<Rightarrow> 0),
                       disk_io_total = total,
                       execution_time_s = current_time - info_create_time info\<rparr>))"

definition transient :: "exn \<Rightarrow> bool" where
  "transient e = (e = NoSuchProcess \<or> e = AccessDenied \<or> e = ZombieProcess)"

text \<open>The \<open>for proc in process_iter(...)\<close> loop with its \<open>try ... except ...: pass\<close>.\<close>

fun enumerate_procs :: "rat \<Rightarrow> (exn + pinfo) list \<Rightarrow> snapshot list \<Rightarrow> exn + snapshot list" where
  "enumerate_procs current_time [] processes = Inr processes"
| "enumerate_procs current_time (proc # rest) processes =
     (case proc_entry current_time proc of
        Inr s \<Rightarrow> enumerate_procs current_time rest (processes @ [s])
      | Inl e \<Rightarrow>
          if transient e then enumerate_procs current_time rest processes else Inl e)"

text \<open>
  The clock is the sequence of the values that successive calls of \<open>time.time()\<close> return;
  the state is the number of calls made so far. The function returns its result and the
  number of calls afterwards.
\<close>

definition get_all_processes_info ::
  "(nat \<Rightarrow> rat) \<Rightarrow> nat \<Rightarrow> (exn + pinfo) list \<Rightarrow> (exn + snapshot list) \<times> nat" where
  "get_all_processes_info clock calls procs =
     (let current_time = clock calls
      in (enumerate_procs current_time procs [], Suc calls))"

text \<open>
  For comparison only, the enumeration as the specification words it: the clock is read
  again for each process.
\<close>

fun enumerate_procs_reread ::
  "(nat \<Rightarrow> rat) \<Rightarrow> nat \<Rightarrow> (exn + pinfo) list \<Rightarrow> snapshot list \<Rightarrow> (exn + snapshot list) \<times> nat" where
  "enumerate_procs_reread clock calls [] processes = (Inr processes, calls)"
| "enumerate_procs_reread clock calls (proc # rest) processes =
     (case proc_entry (clock calls) proc of
        Inr s \<Rightarrow> enumerate_procs_reread clock (Suc calls) rest (processes @ [s])
      | Inl e \<Rightarrow>
          if transient e then enumerate_procs_reread clock (Suc calls) rest processes
          else (Inl e, Suc calls))"

definition spec_get_all_processes_info ::
  "(nat \<Rightarrow> rat) \<Rightarrow> nat \<Rightarrow> (exn + pinfo) list \<Rightarrow> (exn + snapshot list) \<times> nat" where
  "spec_get_all_processes_info clock calls procs = enumerate_procs_reread clock calls procs []"

subsection \<open>Temperature lookup\<close>

text \<open>
  An entry of a sensor group is either the named tuple \<open>shwtemp(label, current, high,
  critical)\<close> that psutil returns, which has the attribute \<open>current\<close> and no method
  \<open>get\<close>, or a dictionary, which has the method \<open>get\<close> and no attribute \<open>current\<close>. The
  program uses both accesses. The sensor data is an insertion-ordered dictionary of groups,
  or absent when the platform's psutil has no \<open>sensors_temperatures\<close>.
\<close>

datatype sensor_entry =
    Shwtemp string rat "rat option" "rat option"
  | DictEntry "pyval dict"

type_synonym sensors = "(string \<times> sensor_entry list) list"

definition index0 :: "'a list \<Rightarrow> exn + 'a" where
  "index0 xs = (case xs of [] \<Rightarrow> Inl IndexError | x # _ \<Rightarrow> Inr x)"

definition entry_get :: "sensor_entry \<Rightarrow> string \<Rightarrow> pyval \<Rightarrow> exn + pyval" where
  "entry_get e k dflt =
     (case e of Shwtemp _ _ _ _ \<Rightarrow> Inl AttributeError | DictEntry d \<Rightarrow> Inr (dict_get d k dflt))"

definition entry_current :: "sensor_entry \<Rightarrow> exn + pyval" where
  "entry_current e =
     (case e of Shwtemp _ cur _ _ \<Rightarrow> Inr (FloatV cur) | DictEntry _ \<Rightarrow> Inl AttributeError)"

text \<open>The body of the \<open>try\<close> in \<open>run_spm\<close> that computes \<open>cpu_temp\<close>.\<close>

definition cpu_temp_body :: "sensors option \<Rightarrow> exn + pyval" where
  "cpu_temp_body sensors_temperatures =
     (case sensors_temperatures of
        None \<Rightarrow> Inl AttributeError
      | Some temps \<Rightarrow>
          (case index0 (dict_get temps ''coretemp'' [DictEntry []]) of
             Inl e \<Rightarrow> Inl e
           | Inr entry \<Rightarrow>
               (case entry_get entry ''current'' (StrV ''N/A'') of
                  Inl e \<Rightarrow> Inl e
                | Inr cpu_temp \<Rightarrow>
                    if cpu_temp = StrV ''N/A'' \<and> temps \<noteq> [] then
                      (case index0 (map snd temps) of
                         Inl e \<Rightarrow> Inl e
                       | Inr first_group \<Rightarrow>
                           (case index0 first_group of
                              Inl e \<Rightarrow> Inl e
                            | Inr first_sensor \<Rightarrow> entry_current first_sensor))
                    else Inr cpu_temp)))"

text \<open>The whole \<open>try ... except (AttributeError, IndexError, KeyError)\<close>.\<close>

definition read_cpu_temp :: "sensors option \<Rightarrow> exn + pyval" where
  "read_cpu_temp sensors_temperatures =
     (case cpu_temp_body sensors_temperatures of
        Inl e \<Rightarrow>
          if e = AttributeError \<or> e = IndexError \<or> e = KeyError then Inr (StrV ''N/A'')
          else Inl e
      | Inr v \<Rightarrow> Inr v)"

subsection \<open>Ranking\<close>

text \<open>
  \<open>sorted(xs, key=key, reverse=True)\<close>: a stable sort in descending key order. CPython
  reverses the list, sorts it stably in ascending order and reverses the result, which is
  what keeps equal keys in their original order.
\<close>

definition sorted_reverse :: "('a \<Rightarrow> 'k::linorder) \<Rightarrow> 'a list \<Rightarrow> 'a list" where
  "sorted_reverse key xs = rev (sort_key key (rev xs))"

definition top_n :: "nat \<Rightarrow> ('a \<Rightarrow> 'k::linorder) \<Rightarrow> 'a list \<Rightarrow> 'a list" where
  "top_n n key xs = take n (sorted_reverse key xs)"

text \<open>
  The three selections of one cycle, returned together with \<open>all_procs\<close> as it is after
  them.
\<close>

record ranking =
  all_procs :: "snapshot list"
  top_cpu :: "snapshot list"
  top_mem :: "snapshot list"
  top_disk :: "snapshot list"

definition rank_processes :: "nat \<Rightarrow> snapshot list \<Rightarrow> ranking" where
  "rank_processes n procs =
     \<lparr>all_procs = procs,
      top_cpu = top_n n cpu_percent procs,
      top_mem = top_n n mem_rss procs,
      top_disk = top_n n disk_io_total procs\<rparr>"

subsection \<open>The log record of one cycle\<close>

record system_sample =
  timestamp :: string
  cpu_total :: rat
  cpu_per_core :: "rat list"
  mem_percent :: rat
  mem_used :: int
  mem_available :: int
  mem_cached :: "int option"
  mem_total :: int
  disk_percent :: rat
  uptime :: rat

fun join :: "string \<Rightarrow> string list \<Rightarrow> string" where
  "join sep [] = []"
| "join sep [x] = x"
| "join sep (x # y # ys) = x @ sep @ join sep (y # ys)"

text \<open>
  The dictionary literal passed to \<open>log_data.update\<close>. Python's \<open>str\<close> of a float is the
  parameter \<open>str_float\<close>.
\<close>

definition system_items ::
  "(rat \<Rightarrow> string) \<Rightarrow> system_sample \<Rightarrow> int \<times> int \<times> rat \<times> rat \<Rightarrow> pyval \<Rightarrow> pyval dict" where
  "system_items str_float s rates cpu_temp =
     (case rates of (disk_read_s, disk_write_s, mbps_sent, mbps_recv) \<Rightarrow>
        [(''timestamp'', StrV (timestamp s)),
         (''cpu_usage_total'', FloatV (cpu_total s)),
         (''cpu_usage_per_core'', StrV (join '','' (map str_float (cpu_per_core s)))),
         (''memory_usage_percent'', FloatV (mem_percent s)),
         (''memory_used'', IntV (mem_used s)),
         (''memory_available'', IntV (mem_available s)),
         (''memory_cached'', IntV (case mem_cached s of None \<Rightarrow> 0 | Some c \<Rightarrow> c)),
         (''disk_usage_percent'', FloatV (disk_percent s)),
         (''disk_io_read_bytes_s'', IntV disk_read_s),
         (''disk_io_write_bytes_s'', IntV disk_write_s),
         (''network_io_sent_mbps'', FloatV mbps_sent),
         (''network_io_recv_mbps'', FloatV mbps_recv),
         (''system_uptime_seconds'', FloatV (uptime s)),
         (''system_temp_celsius'', cpu_temp)])"

text \<open>\<open>proc_data.get(field, 'N/A')\<close>, where \<open>proc_data\<close> is a snapshot or the empty dictionary.\<close>

definition proc_get :: "snapshot option \<Rightarrow> (snapshot \<Rightarrow> pyval) \<Rightarrow> pyval" where
  "proc_get proc_data field = (case proc_data of None \<Rightarrow> StrV ''N/A'' | Some p \<Rightarrow> field p)"

text \<open>The eight assignments of one pass of the inner loop, for the loop index \<open>i\<close>.\<close>

definition slot_items :: "string \<Rightarrow> nat \<Rightarrow> snapshot option \<Rightarrow> pyval dict" where
  "slot_items category i proc_data =
     [(slot_key category (i + 1) ''pid'', proc_get proc_data (\<lambda>p. IntV (pid p))),
      (slot_key category (i + 1) ''name'', proc_get proc_data (\<lambda>p. StrV (name p))),
      (slot_key category (i + 1) ''cpu_percent'', proc_get proc_data (\<lambda>p. FloatV (cpu_percent p))),
      (slot_key category (i + 1) ''mem_rss'', proc_get proc_data (\<lambda>p. IntV (mem_rss p))),
      (slot_key category (i + 1) ''mem_vms'', proc_get proc_data (\<lambda>p. IntV (mem_vms p))),
      (slot_key category (i + 1) ''disk_read_bytes'',
         proc_get proc_data (\<lambda>p. IntV (disk_read_bytes p))),
      (slot_key category (i + 1) ''disk_write_bytes'',
         proc_get proc_data (\<lambda>p. IntV (disk_write_bytes p))),
      (slot_key category (i + 1) ''execution_time_s'',
         proc_get proc_data (\<lambda>p. FloatV (execution_time_s p)))]"

definition slot_proc :: "snapshot list \<Rightarrow> nat \<Rightarrow> snapshot option" where
  "slot_proc dat i = (if i < length dat then Some (dat ! i) else None)"

definition flatten_category :: "nat \<Rightarrow> string \<Rightarrow> snapshot list \<Rightarrow> pyval dict \<Rightarrow> pyval dict" where
  "flatten_category n category dat log_data =
     foldl (\<lambda>d i. dict_update d (slot_items category i (slot_proc dat i))) log_data [0..<n]"

text \<open>\<open>log_data\<close> as \<open>run_spm\<close> passes it to \<open>log_to_csv\<close>.\<close>

definition build_log_data ::
  "nat \<Rightarrow> (rat \<Rightarrow> string) \<Rightarrow> system_sample \<Rightarrow> int \<times> int \<times> rat \<times> rat \<Rightarrow> pyval \<Rightarrow>
   snapshot list \<Rightarrow> pyval dict" where
  "build_log_data n str_float s rates cpu_temp procs =
     (let log_data = dict_update [] (system_items str_float s rates cpu_temp);
          r = rank_processes n procs
      in foldl (\<lambda>d (category, dat). flatten_category n category dat d) log_data
           [(''cpu'', top_cpu r), (''memory'', top_mem r), (''disk_io'', top_disk r)])"

subsection \<open>The task listings of the console view\<close>

definition task_prefix :: "snapshot \<Rightarrow> string" where
  "task_prefix p =
     ''  PID: '' @ ljust 6 (str_int (pid p)) @ '' | Name: '' @ ljust 20 (name p)"

definition cpu_task_line :: "snapshot \<Rightarrow> string" where
  "cpu_task_line p = task_prefix p @ '' | Usage: '' @ fmt2f (cpu_percent p) @ ''%''"

definition mem_task_line :: "snapshot \<Rightarrow> exn + string" where
  "mem_task_line p =
     (case get_size (mem_rss p) ''B'' of
        Inl e \<Rightarrow> Inl e
      | Inr s \<Rightarrow> Inr (task_prefix p @ '' | Usage: '' @ s))"

definition disk_task_line :: "snapshot \<Rightarrow> exn + string" where
  "disk_task_line p =
     (case get_size (disk_io_total p) ''B'' of
        Inl e \<Rightarrow> Inl e
      | Inr s \<Rightarrow> Inr (task_prefix p @ '' | I/O: '' @ s))"

text \<open>
  A sequence of \<open>print\<close> calls: the lines in order, up to the first whose rendering raises,
  which ends the cycle.
\<close>

fun print_all :: "(exn + string) list \<Rightarrow> exn + string list" where
  "print_all [] = Inr []"
| "print_all (l # ls) =
     (case l of
        Inl e \<Rightarrow> Inl e
      | Inr s \<Rightarrow> (case print_all ls of Inl e \<Rightarrow> Inl e | Inr ss \<Rightarrow> Inr (s # ss)))"

text \<open>
  The lines printed for the three rankings: each title and its \<open>for p in top_...\<close> loop.
  The lines printed between them show system-level values only.
\<close>

definition display_tasks :: "ranking \<Rightarrow> exn + string list" where
  "display_tasks r =
     print_all
       ([Inr ''Top CPU Consuming Tasks:''] @ map (\<lambda>p. Inr (cpu_task_line p)) (top_cpu r) @
        [Inr ''Top Memory Consuming Tasks (RSS):''] @ map mem_task_line (top_mem r) @
        [Inr ''Top Disk I/O Tasks:''] @ map disk_task_line (top_disk r))"


subsection \<open>Example inputs\<close>



text \<open>A file system where the log exists with one row, and one where it does not.\<close>

definition existing_log :: filesystem where
  "existing_log = Map.empty(LOG_FILE \<mapsto> [[StrV ''kept'']])"

definition no_log :: filesystem where
  "no_log = Map.empty"

definition ticking_clock :: "nat \<Rightarrow> rat" where
  "ticking_clock k = 1000 + of_nat k"

definition proc_a :: pinfo where
  "proc_a = \<lparr>info_pid = 1, info_name = ''init'', info_cpu_percent = 0,
            info_memory_info = Some \<lparr>rss = 4096, vms = 8192\<rparr>,
            info_io_counters = None, info_create_time = 10\<rparr>"

definition proc_b :: pinfo where
  "proc_b = \<lparr>info_pid = 2, info_name = ''sh'', info_cpu_percent = 5,
            info_memory_info = Some \<lparr>rss = 100, vms = 200\<rparr>,
            info_io_counters = Some \<lparr>read_bytes = 3, write_bytes = 4\<rparr>, info_create_time = 20\<rparr>"

text \<open>The infos of the processes whose read did not raise.\<close>

definition infos_read :: "(exn + pinfo) list \<Rightarrow> pinfo list" where
  "infos_read procs = List.map_filter (\<lambda>p. case p of Inl _ \<Rightarrow> None | Inr i \<Rightarrow> Some i) procs"

definition built_from :: "rat \<Rightarrow> snapshot \<Rightarrow> pinfo \<Rightarrow> bool" where
  "built_from t s i = (proc_entry t (Inr i) = Inr s)"

definition readable_or_transient :: "exn + pinfo \<Rightarrow> bool" where
  "readable_or_transient p =
     (case p of Inl e \<Rightarrow> transient e | Inr i \<Rightarrow> info_memory_info i \<noteq> None)"

definition aged_at :: "rat \<Rightarrow> snapshot \<Rightarrow> pinfo \<Rightarrow> bool" where
  "aged_at t s i = (pid s = info_pid i \<and> execution_time_s s = t - info_create_time i)"

definition proc_no_mem :: pinfo where
  "proc_no_mem = \<lparr>info_pid = 3, info_name = ''kthreadd'', info_cpu_percent = 0,
            info_memory_info = None, info_io_counters = None, info_create_time = 5\<rparr>"

text \<open>A snapshot with the given pid and CPU percent and nothing else of interest.\<close>

definition mk_proc :: "int \<Rightarrow> rat \<Rightarrow> snapshot" where
  "mk_proc i c =
     \<lparr>pid = i, name = ''p'', cpu_percent = c, mem_rss = 0, mem_vms = 0,
      disk_read_bytes = 0, disk_write_bytes = 0, disk_io_total = 0, execution_time_s = 0\<rparr>"

definition five_procs :: "snapshot list" where
  "five_procs = [mk_proc 1 10, mk_proc 2 55, mk_proc 3 55, mk_proc 4 2, mk_proc 5 30]"

section \<open>Properties\<close>

subsection \<open>Decimal rendering\<close>

lemma digit_in_range: "k < 10 \<Longrightarrow> is_digit (''0123456789'' ! k)"
proof -
  assume "k < 10"
  then have "k = 0 \<or> k = 1 \<or> k = 2 \<or> k = 3 \<or> k = 4 \<or> k = 5 \<or> k = 6 \<or> k = 7 \<or> k = 8 \<or> k = 9"
    by arith
  then show ?thesis unfolding is_digit_def by (elim disjE) simp_all
qed

lemma digit_char_is_digit: "is_digit (digit_char d)"
  unfolding digit_char_def by (rule digit_in_range) simp

lemma str_nat_digits: "list_all is_digit (str_nat n)"
proof (induction n rule: str_nat.induct)
  case (1 n)
  show ?case
  proof (cases "n < 10")
    case True
    then show ?thesis by (simp add: str_nat.simps [of n] digit_char_is_digit)
  next
    case False
    with 1 show ?thesis by (simp add: str_nat.simps [of n] digit_char_is_digit)
  qed
qed

lemma str_nat_nonempty: "str_nat n \<noteq> []"
  by (simp add: str_nat.simps [of n])

lemma fmt2f_two_decimals: "0 \<le> x \<Longrightarrow> two_decimals (fmt2f x)"
  using str_nat_digits str_nat_nonempty
  by (simp add: fmt2f_def two_decimals_def Let_def digit_char_is_digit)

subsection \<open>Rounding to a double\<close>

lemma bit_length_0: "bit_length 0 = 0"
  by (simp add: bit_length.simps [of 0])

lemma bit_length_less: "n < 2 ^ bit_length n"
proof (induction n rule: bit_length.induct)
  case (1 n)
  show ?case
  proof (cases "n = 0")
    case True
    then show ?thesis by simp
  next
    case False
    with 1 have "n div 2 < 2 ^ bit_length (n div 2)" by simp
    then have "n < 2 * 2 ^ bit_length (n div 2)" by linarith
    with False show ?thesis by (simp add: bit_length.simps [of n])
  qed
qed

lemma bit_length_ge: "n \<noteq> 0 \<Longrightarrow> 2 ^ (bit_length n - 1) \<le> n"
proof (induction n rule: bit_length.induct)
  case (1 n)
  show ?case
  proof (cases "n div 2 = 0")
    case True
    with 1(2) show ?thesis
      by (simp add: bit_length.simps [of n] bit_length.simps [of 0])
  next
    case False
    with 1 have ih: "2 ^ (bit_length (n div 2) - 1) \<le> n div 2" by simp
    have "bit_length (n div 2) \<noteq> 0" using False by (simp add: bit_length.simps [of "n div 2"])
    then have "2 ^ bit_length (n div 2) = 2 * (2::nat) ^ (bit_length (n div 2) - 1)"
      by (cases "bit_length (n div 2)") simp_all
    with ih have "2 ^ bit_length (n div 2) \<le> n" by linarith
    with 1(2) show ?thesis by (simp add: bit_length.simps [of n])
  qed
qed

lemma bit_length_le: "n < 2 ^ k \<Longrightarrow> bit_length n \<le> k"
proof (rule ccontr)
  assume n: "n < 2 ^ k" and "\<not> bit_length n \<le> k"
  then have k: "k \<le> bit_length n - 1" by simp
  have "n \<noteq> 0" using \<open>\<not> bit_length n \<le> k\<close> by (cases "n = 0") (simp_all add: bit_length_0)
  then have "2 ^ (bit_length n - 1) \<le> n" by (rule bit_length_ge)
  moreover have "(2::nat) ^ k \<le> 2 ^ (bit_length n - 1)" using k by (simp add: power_increasing)
  ultimately show False using n by linarith
qed

lemma round53_small: "n < 2 ^ 53 \<Longrightarrow> round53 n = n"
proof -
  assume "n < 2 ^ 53"
  then have "bit_length n \<le> 53" by (rule bit_length_le)
  then have "bit_length n - 53 = 0" by simp
  then show ?thesis by (simp add: round53_def)
qed

lemma round53_lower: "(n div 2 ^ (bit_length n - 53)) * 2 ^ (bit_length n - 53) \<le> round53 n"
  by (simp add: round53_def Let_def)

lemma round53_upper: "round53 n \<le> (n div 2 ^ (bit_length n - 53) + 1) * 2 ^ (bit_length n - 53)"
  by (simp add: round53_def Let_def)

lemma round53_ge_pow:
  assumes "2 ^ k \<le> n"
  shows "2 ^ k \<le> round53 n"
proof -
  let ?s = "bit_length n - 53"
  have "(2::nat) ^ k \<le> (n div 2 ^ ?s) * 2 ^ ?s"
  proof (cases "?s \<le> k")
    case True
    then have "(2::nat) ^ k = 2 ^ (k - ?s) * 2 ^ ?s" by (simp flip: power_add)
    with assms have "2 ^ (k - ?s) * 2 ^ ?s \<le> n" by simp
    then have "2 ^ (k - ?s) \<le> n div 2 ^ ?s" by (simp add: less_eq_div_iff_mult_less_eq)
    then have "2 ^ (k - ?s) * 2 ^ ?s \<le> (n div 2 ^ ?s) * 2 ^ ?s" by simp
    with \<open>2 ^ k = 2 ^ (k - ?s) * 2 ^ ?s\<close> show ?thesis by simp
  next
    case False
    then have ks: "k < ?s" by simp
    then have s: "0 < ?s" by simp
    have "n \<noteq> 0" using assms by (cases "n = 0") simp_all
    then have "2 ^ (bit_length n - 1) \<le> n" by (rule bit_length_ge)
    moreover have "(2::nat) ^ ?s \<le> 2 ^ (bit_length n - 1)"
      by (rule power_increasing) (use s in simp_all)
    ultimately have "2 ^ ?s \<le> n" by linarith
    then have "1 \<le> n div 2 ^ ?s" by (simp add: less_eq_div_iff_mult_less_eq)
    then have "1 * 2 ^ ?s \<le> (n div 2 ^ ?s) * 2 ^ ?s" by (rule mult_le_mono1)
    then have "2 ^ ?s \<le> (n div 2 ^ ?s) * 2 ^ ?s" by (simp only: mult_1)
    moreover have "(2::nat) ^ k \<le> 2 ^ ?s" using ks by (simp add: power_increasing)
    ultimately show ?thesis by (rule order_trans [rotated])
  qed
  with round53_lower [of n] show ?thesis by linarith
qed

lemma round53_le_pow:
  assumes "n < 2 ^ k"
  shows "round53 n \<le> 2 ^ k"
proof (cases "bit_length n \<le> 53")
  case True
  then have "bit_length n - 53 = 0" by simp
  then have "round53 n = n" by (simp add: round53_def)
  with assms show ?thesis by simp
next
  case False
  let ?s = "bit_length n - 53"
  from False have s: "0 < ?s" by simp
  then have "n \<noteq> 0" by (cases "n = 0") (simp_all add: bit_length_0)
  then have "2 ^ (bit_length n - 1) \<le> n" by (rule bit_length_ge)
  with assms have "(2::nat) ^ (bit_length n - 1) < 2 ^ k" by linarith
  then have "bit_length n - 1 < k" by (simp add: power_strict_increasing_iff)
  with s have sk: "?s \<le> k" by simp
  then have split: "(2::nat) ^ k = 2 ^ (k - ?s) * 2 ^ ?s" by (simp flip: power_add)
  with assms have "n < 2 ^ (k - ?s) * 2 ^ ?s" by simp
  then have "n div 2 ^ ?s < 2 ^ (k - ?s)" by (simp add: less_mult_imp_div_less)
  then have "n div 2 ^ ?s + 1 \<le> 2 ^ (k - ?s)" by simp
  then have "(n div 2 ^ ?s + 1) * 2 ^ ?s \<le> 2 ^ (k - ?s) * 2 ^ ?s" by (rule mult_le_mono1)
  with split round53_upper [of n] show ?thesis by linarith
qed

lemma near_aux:
  fixes n A r P v :: nat
  assumes "n = A + r" "r < P"
    and "v = (if 2 * r < P then A else if P < 2 * r then A + P else if e then A else A + P)"
  shows "2 * v \<le> 2 * n + P \<and> 2 * n \<le> 2 * v + P"
  using assms by (auto split: if_splits)

lemma round53_near:
  "2 * round53 n \<le> 2 * n + 2 ^ (bit_length n - 53) \<and>
   2 * n \<le> 2 * round53 n + 2 ^ (bit_length n - 53)"
proof (rule near_aux)
  show "n = (n div 2 ^ (bit_length n - 53)) * 2 ^ (bit_length n - 53) +
      n mod 2 ^ (bit_length n - 53)"
    by (rule div_mult_mod_eq [symmetric])
  show "n mod 2 ^ (bit_length n - 53) < 2 ^ (bit_length n - 53)" by simp
  have up: "(q + 1) * P = q * P + P" for q P :: nat by (simp add: algebra_simps)
  show "round53 n =
      (if 2 * (n mod 2 ^ (bit_length n - 53)) < 2 ^ (bit_length n - 53)
       then (n div 2 ^ (bit_length n - 53)) * 2 ^ (bit_length n - 53)
       else if 2 ^ (bit_length n - 53) < 2 * (n mod 2 ^ (bit_length n - 53))
       then (n div 2 ^ (bit_length n - 53)) * 2 ^ (bit_length n - 53) + 2 ^ (bit_length n - 53)
       else if even (n div 2 ^ (bit_length n - 53))
       then (n div 2 ^ (bit_length n - 53)) * 2 ^ (bit_length n - 53)
       else (n div 2 ^ (bit_length n - 53)) * 2 ^ (bit_length n - 53) + 2 ^ (bit_length n - 53))"
    unfolding round53_def Let_def up by (rule refl)
qed

lemma error_aux:
  fixes v n P :: int
  assumes "2 * v \<le> 2 * n + P" "2 * n \<le> 2 * v + P" "4503599627370496 * P \<le> n"
  shows "\<bar>v - n\<bar> * 9007199254740992 \<le> n"
proof -
  have "2 * \<bar>v - n\<bar> \<le> P" using assms(1,2) by (auto simp: abs_if)
  then have "4503599627370496 * (2 * \<bar>v - n\<bar>) \<le> 4503599627370496 * P"
    by (rule mult_left_mono) simp
  then have "\<bar>v - n\<bar> * 9007199254740992 \<le> 4503599627370496 * P" by simp
  with assms(3) show ?thesis by (rule order_trans [rotated])
qed

lemma round53_error: "\<bar>int (round53 n) - int n\<bar> * 2 ^ 53 \<le> int n"
proof (cases "bit_length n \<le> 53")
  case True
  then have "bit_length n - 53 = 0" by simp
  then have "round53 n = n" by (simp add: round53_def)
  then show ?thesis by simp
next
  case False
  define s where "s = bit_length n - 53"
  from False have e: "bit_length n - 1 = 52 + s" unfolding s_def by linarith
  from False have "n \<noteq> 0" by (cases "n = 0") (simp_all add: bit_length_0)
  then have "2 ^ (bit_length n - 1) \<le> n" by (rule bit_length_ge)
  then have "2 ^ (52 + s) \<le> n" unfolding e .
  then have "2 ^ 52 * 2 ^ s \<le> n" unfolding power_add .
  then have "int (2 ^ 52 * 2 ^ s) \<le> int n" by (rule of_nat_mono)
  then have big: "4503599627370496 * (2 ^ s :: int) \<le> int n" by simp
  from round53_near [of n]
  have n1: "2 * round53 n \<le> 2 * n + 2 ^ s" and n2: "2 * n \<le> 2 * round53 n + 2 ^ s"
    unfolding s_def by blast+
  from n1 have "int (2 * round53 n) \<le> int (2 * n + 2 ^ s)" by (rule of_nat_mono)
  then have i1: "2 * int (round53 n) \<le> 2 * int n + 2 ^ s" by simp
  from n2 have "int (2 * n) \<le> int (2 * round53 n + 2 ^ s)" by (rule of_nat_mono)
  then have i2: "2 * int n \<le> 2 * int (round53 n) + 2 ^ s" by simp
  from i1 i2 big have "\<bar>int (round53 n) - int n\<bar> * 9007199254740992 \<le> int n"
    by (rule error_aux)
  then show ?thesis by simp
qed

subsection \<open>Rendering of fractions\<close>

lemma round_half_even_ratio:
  assumes "0 < q"
  shows "round_half_even (of_int p / of_int q) =
     (if 2 * (p mod q) < q then p div q
      else if q < 2 * (p mod q) then p div q + 1
      else if even (p div q) then p div q else p div q + 1)"
proof -
  have fl: "\<lfloor>(of_int p / of_int q :: rat)\<rfloor> = p div q" by (rule floor_divide_of_int_eq)
  have q0: "(0::rat) < of_int q" using assms by simp
  have "(of_int p :: rat) = of_int (q * (p div q) + p mod q)" by simp
  also have "\<dots> = of_int q * of_int (p div q) + of_int (p mod q)" by (simp only: of_int_add of_int_mult)
  finally have "(of_int p / of_int q :: rat) = of_int (p div q) + of_int (p mod q) / of_int q"
    using q0 by (simp add: field_simps)
  then have fr: "(of_int p / of_int q :: rat) - of_int (p div q) = of_int (p mod q) / of_int q"
    by simp
  have lt: "((of_int (p mod q) / of_int q :: rat) < 1 / 2) = (2 * (p mod q) < q)"
  proof -
    have "((of_int (p mod q) / of_int q :: rat) < 1 / 2) =
        ((of_int (2 * (p mod q)) :: rat) < of_int q)"
      using q0 by (simp add: field_simps)
    then show ?thesis by (simp only: of_int_less_iff)
  qed
  have gt: "((1 / 2 :: rat) < of_int (p mod q) / of_int q) = (q < 2 * (p mod q))"
  proof -
    have "((1 / 2 :: rat) < of_int (p mod q) / of_int q) =
        ((of_int q :: rat) < of_int (2 * (p mod q)))"
      using q0 by (simp add: field_simps)
    then show ?thesis by (simp only: of_int_less_iff)
  qed
  show ?thesis unfolding round_half_even_def Let_def fl fr lt gt by (rule refl)
qed

lemma fmt2f_ratio:
  assumes "0 \<le> p" "0 < q"
    and "k = nat (if 2 * ((100 * p) mod q) < q then (100 * p) div q
                  else if q < 2 * ((100 * p) mod q) then (100 * p) div q + 1
                  else if even ((100 * p) div q) then (100 * p) div q
                  else (100 * p) div q + 1)"
  shows "fmt2f (of_int p / of_int q) =
     str_nat (k div 100) @ ''.'' @ [digit_char (k mod 100 div 10), digit_char (k mod 10)]"
proof -
  have nn: "(0::rat) \<le> of_int p / of_int q" using assms(1,2) by simp
  then have ab: "\<bar>(of_int p / of_int q :: rat)\<bar> = of_int p / of_int q" by (rule abs_of_nonneg)
  have neg: "\<not> (of_int p / of_int q :: rat) < 0" using nn by simp
  have sc: "(of_int p / of_int q :: rat) * 100 = of_int (100 * p) / of_int q" by simp
  show ?thesis
    unfolding fmt2f_def ab sc round_half_even_ratio [OF assms(2)] Let_def assms(3)
    using neg by simp
qed

lemma fmt2f_0: "fmt2f 0 = ''0.00''"
  by (simp add: fmt2f_def round_half_even_def Let_def str_nat.simps digit_char_def)

lemma fmt2f_1: "fmt2f 1 = ''1.00''"
  by (simp add: fmt2f_def round_half_even_def Let_def str_nat.simps digit_char_def)

lemma fmt2f_1023: "fmt2f 1023 = ''1023.00''"
  by (simp add: fmt2f_def round_half_even_def Let_def str_nat.simps digit_char_def)

lemma fmt2f_1024: "fmt2f 1024 = ''1024.00''"
  by (simp add: fmt2f_def round_half_even_def Let_def str_nat.simps digit_char_def)

lemma fmt2f_3_2: "fmt2f (3 / 2) = ''1.50''"
  using fmt2f_ratio [of 3 2, OF _ _ refl] by (simp add: str_nat.simps digit_char_def)

lemma fmt2f_11_2: "fmt2f (11 / 2) = ''5.50''"
  using fmt2f_ratio [of 11 2, OF _ _ refl] by (simp add: str_nat.simps digit_char_def)

lemma fmt2f_1234567_1024: "fmt2f (1234567 / 1024) = ''1205.63''"
  using fmt2f_ratio [of 1234567 1024, OF _ _ refl] by (simp add: str_nat.simps digit_char_def)

lemma fmt2f_8_02: "fmt2f (9024087753343632 / 1024 ^ 5) = ''8.02''"
  using fmt2f_ratio [of 9024087753343632 "1024 ^ 5", OF _ _ refl]
  by (simp add: str_nat.simps digit_char_def)

lemma fmt2f_1_00: "fmt2f (1158686112129881088 / 1024 ^ 6) = ''1.00''"
  using fmt2f_ratio [of 1158686112129881088 "1024 ^ 6", OF _ _ refl]
  by (simp add: str_nat.simps digit_char_def)

lemma fmt2f_1_01: "fmt2f (1158686112129881211 / 1024 ^ 6) = ''1.01''"
  using fmt2f_ratio [of 1158686112129881211 "1024 ^ 6", OF _ _ refl]
  by (simp add: str_nat.simps digit_char_def)

lemma round53_2_60_1: "round53 1152921504606846975 = 1152921504606846976"
  by (simp add: round53_def Let_def bit_length.simps)

lemma round53_8_02: "round53 9024087753343631 = 9024087753343632"
  by (simp add: round53_def Let_def bit_length.simps)

lemma round53_1_00: "round53 1158686112129881211 = 1158686112129881088"
  by (simp add: round53_def Let_def bit_length.simps)

subsection \<open>Unit scaling\<close>

lemma float_loop_stop:
  "k < length us \<Longrightarrow> k = 0 \<or> 1024 ^ k \<le> x \<Longrightarrow> x < 1024 ^ Suc k \<Longrightarrow>
   get_size_loop (PyFloat x) us sfx = Inr (fmt2f (x / 1024 ^ k) @ us ! k @ sfx)"
proof (induction us arbitrary: x k)
  case Nil
  then show ?case by simp
next
  case (Cons u us)
  show ?case
  proof (cases k)
    case 0
    with Cons.prems show ?thesis by (simp add: num_value_def format_2f_def to_float_def)
  next
    case (Suc j)
    with Cons.prems have lo: "1024 * 1024 ^ j \<le> x" and hi: "x < 1024 * (1024 * 1024 ^ j)"
      by simp_all
    have "(1::rat) \<le> 1024 ^ j" by simp
    with lo have nb: "\<not> x < 1024" by linarith
    have lo': "1024 ^ j \<le> x / 1024" using lo by (simp add: field_simps)
    have hi': "x / 1024 < 1024 ^ Suc j" using hi by (simp add: field_simps)
    have jl: "j < length us" using Cons.prems(1) Suc by simp
    have "get_size_loop (PyFloat (x / 1024)) us sfx =
        Inr (fmt2f (x / 1024 / 1024 ^ j) @ us ! j @ sfx)"
      using Cons.IH [OF jl _ hi'] lo' by blast
    with nb Suc show ?thesis by (simp add: num_value_def div_factor_def field_simps)
  qed
qed

lemma float_loop_overflow:
  "1024 ^ length us \<le> x \<Longrightarrow>
   get_size_loop (PyFloat x) us sfx = Inr (fmt2f (x / 1024 ^ length us) @ ''P'' @ sfx)"
proof (induction us arbitrary: x)
  case Nil
  then show ?case by (simp add: format_2f_def to_float_def)
next
  case (Cons u us)
  then have lo: "1024 * 1024 ^ length us \<le> x" by simp
  have "(1::rat) \<le> 1024 ^ length us" by simp
  with lo have nb: "\<not> x < 1024" by linarith
  have "1024 ^ length us \<le> x / 1024" using lo by (simp add: field_simps)
  from Cons.IH [OF this] nb show ?case
    by (simp add: num_value_def div_factor_def field_simps)
qed

lemma get_size_below_factor:
  assumes "0 \<le> b" "b < 1024"
  shows "get_size b sfx = Inr (fmt2f (of_int b) @ sfx)"
proof -
  have ab: "\<bar>b\<bar> = b" "\<not> b < 0" using assms by simp_all
  have "nat b < 2 ^ 53" using assms by simp
  then have r: "round53 (nat b) = nat b" by (rule round53_small)
  have v: "(of_nat (nat b) :: rat) = of_int b" using assms by simp
  have lt: "(of_int b :: rat) < 1024" using assms by simp
  then have small: "\<not> (2::rat) ^ 1024 \<le> of_int b" by simp
  have "to_float (PyInt b) = Inr (of_int b)"
    unfolding to_float_def number.case ab r v Let_def using small ab(2) by simp
  then have "format_2f (PyInt b) = Inr (fmt2f (of_int b))"
    by (simp add: format_2f_def)
  with lt show ?thesis
    by (simp add: get_size_def size_units_def num_value_def)
qed

lemma div_factor_int:
  assumes "0 \<le> b"
  shows "div_factor (PyInt b) =
     (if (2::rat) ^ 1034 \<le> of_nat (round53 (nat b)) then Inl OverflowError
      else Inr (of_nat (round53 (nat b)) / 1024))"
proof -
  have ab: "\<bar>b\<bar> = b" "\<not> b < 0" using assms by simp_all
  have p: "((2::rat) ^ 1024 \<le> x / 1024) = (2 ^ 1034 \<le> x)" for x :: rat
  proof -
    have "(2::rat) ^ 1034 = 2 ^ 1024 * 1024" by simp
    then show ?thesis by (simp add: field_simps)
  qed
  show ?thesis
    unfolding div_factor_def number.case ab Let_def p using ab(2) by (simp del: power_numeral)
qed

lemma get_size_from_factor:
  assumes "1024 \<le> b"
  shows "get_size b sfx =
     (if (2::rat) ^ 1034 \<le> of_nat (round53 (nat b)) then Inl OverflowError
      else get_size_loop (PyFloat (of_nat (round53 (nat b)) / 1024))
             [''K'', ''M'', ''G'', ''T'', ''P''] sfx)"
proof -
  have nb: "\<not> num_value (PyInt b) < 1024" using assms by (simp add: num_value_def)
  have "get_size b sfx =
      get_size_loop (PyInt b) ([] # [''K'', ''M'', ''G'', ''T'', ''P'']) sfx"
    by (simp only: get_size_def size_units_def)
  also have "\<dots> = (case div_factor (PyInt b) of
        Inl e \<Rightarrow> Inl e
      | Inr x \<Rightarrow> get_size_loop (PyFloat x) [''K'', ''M'', ''G'', ''T'', ''P''] sfx)"
    using nb by (simp only: get_size_loop.simps if_False)
  finally have step: "get_size b sfx = (case div_factor (PyInt b) of
        Inl e \<Rightarrow> Inl e
      | Inr x \<Rightarrow> get_size_loop (PyFloat x) [''K'', ''M'', ''G'', ''T'', ''P''] sfx)" .
  have d: "div_factor (PyInt b) =
     (if (2::rat) ^ 1034 \<le> of_nat (round53 (nat b)) then Inl OverflowError
      else Inr (of_nat (round53 (nat b)) / 1024))"
    by (rule div_factor_int) (use assms in simp)
  show ?thesis
  proof (cases "(2::rat) ^ 1034 \<le> of_nat (round53 (nat b))")
    case True
    then show ?thesis unfolding step d by (simp only: if_True sum.case)
  next
    case False
    then show ?thesis unfolding step d by (simp only: if_False sum.case)
  qed
qed

lemma get_size_unit:
  fixes v :: rat
  assumes b: "1024 \<le> b" and v: "v = of_nat (round53 (nat b))"
    and k: "k < 5" and lo: "k = 0 \<or> 1024 ^ Suc k \<le> v" and hi: "v < 1024 ^ Suc (Suc k)"
  shows "get_size b sfx =
     Inr (fmt2f (v / 1024 ^ Suc k) @ [''K'', ''M'', ''G'', ''T'', ''P''] ! k @ sfx)"
proof -
  have "(1024::rat) ^ Suc (Suc k) \<le> 1024 ^ 6"
    by (rule power_increasing) (use k in simp_all)
  also have "(1024::rat) ^ 6 < 2 ^ 1034" by simp
  finally have "v < 2 ^ 1034" using hi by simp
  then have no: "\<not> (2::rat) ^ 1034 \<le> of_nat (round53 (nat b))" unfolding v by simp
  have g: "get_size b sfx =
      get_size_loop (PyFloat (v / 1024)) [''K'', ''M'', ''G'', ''T'', ''P''] sfx"
    unfolding get_size_from_factor [OF b] v using no by (simp only: if_False)
  have kl: "k < length [''K'', ''M'', ''G'', ''T'', ''P'']" using k by simp
  have lo': "k = 0 \<or> 1024 ^ k \<le> v / 1024" using lo by (auto simp: field_simps)
  have hi': "v / 1024 < 1024 ^ Suc k" using hi by (simp add: field_simps)
  have "get_size_loop (PyFloat (v / 1024)) [''K'', ''M'', ''G'', ''T'', ''P''] sfx =
      Inr (fmt2f (v / 1024 / 1024 ^ k) @ [''K'', ''M'', ''G'', ''T'', ''P''] ! k @ sfx)"
    using kl lo' hi' by (rule float_loop_stop)
  moreover have "v / 1024 / 1024 ^ k = v / 1024 ^ Suc k" by simp
  ultimately show ?thesis unfolding g by (simp only:)
qed

lemma get_size_beyond_P:
  fixes v :: rat
  assumes b: "1024 \<le> b" and v: "v = of_nat (round53 (nat b))"
    and lo: "1024 ^ 6 \<le> v" and hi: "v < 2 ^ 1034"
  shows "get_size b sfx = Inr (fmt2f (v / 1024 ^ 6) @ ''P'' @ sfx)"
proof -
  have no: "\<not> (2::rat) ^ 1034 \<le> of_nat (round53 (nat b))" using hi unfolding v by simp
  have g: "get_size b sfx =
      get_size_loop (PyFloat (v / 1024)) [''K'', ''M'', ''G'', ''T'', ''P''] sfx"
    unfolding get_size_from_factor [OF b] v using no by (simp only: if_False)
  have l: "length [''K'', ''M'', ''G'', ''T'', ''P''] = 5" by simp
  have "1024 ^ 5 \<le> v / 1024" using lo by (simp add: field_simps)
  then have "1024 ^ length [''K'', ''M'', ''G'', ''T'', ''P''] \<le> v / 1024" unfolding l .
  then have "get_size_loop (PyFloat (v / 1024)) [''K'', ''M'', ''G'', ''T'', ''P''] sfx =
      Inr (fmt2f (v / 1024 / 1024 ^ length [''K'', ''M'', ''G'', ''T'', ''P'']) @ ''P'' @ sfx)"
    by (rule float_loop_overflow)
  moreover have "v / 1024 / 1024 ^ 5 = v / 1024 ^ 6" by simp
  ultimately show ?thesis unfolding g l by (simp only:)
qed

lemma get_size_raises:
  assumes b: "1024 \<le> b" and hi: "(2::rat) ^ 1034 \<le> of_nat (round53 (nat b))"
  shows "get_size b sfx = Inl OverflowError"
  unfolding get_size_from_factor [OF b] using hi by (simp only: if_True)

lemma float_loop_shape:
  "\<exists>k\<le>length us. \<exists>u\<in>set us \<union> {''P''}.
     get_size_loop (PyFloat x) us sfx = Inr (fmt2f (x / 1024 ^ k) @ u @ sfx)"
proof (induction us arbitrary: x)
  case Nil
  show ?case by (rule exI [of _ 0]) (simp add: format_2f_def to_float_def)
next
  case (Cons a us)
  show ?case
  proof (cases "x < 1024")
    case True
    show ?thesis
      by (rule exI [of _ 0]) (simp add: True num_value_def format_2f_def to_float_def)
  next
    case False
    from Cons.IH [of "x / 1024"] obtain k u where
      k: "k \<le> length us" and u: "u \<in> set us \<union> {''P''}"
      and eq: "get_size_loop (PyFloat (x / 1024)) us sfx =
          Inr (fmt2f (x / 1024 / 1024 ^ k) @ u @ sfx)"
      by blast
    have "get_size_loop (PyFloat x) (a # us) sfx = Inr (fmt2f (x / 1024 ^ Suc k) @ u @ sfx)"
      using False eq by (simp add: num_value_def div_factor_def field_simps)
    moreover have "Suc k \<le> length (a # us)" using k by simp
    moreover have "u \<in> set (a # us) \<union> {''P''}" using u by auto
    ultimately show ?thesis by blast
  qed
qed

lemma get_size_returns:
  assumes b: "0 \<le> b" and hi: "(of_nat (round53 (nat b)) :: rat) < 2 ^ 1034"
  shows "\<exists>x. \<exists>u\<in>{[], ''K'', ''M'', ''G'', ''T'', ''P''}. get_size b sfx = Inr (fmt2f x @ u @ sfx)"
proof (cases "b < 1024")
  case True
  with b have "get_size b sfx = Inr (fmt2f (of_int b) @ [] @ sfx)"
    by (simp add: get_size_below_factor)
  then show ?thesis by blast
next
  case False
  then have b': "1024 \<le> b" by simp
  have no: "\<not> (2::rat) ^ 1034 \<le> of_nat (round53 (nat b))" using hi by simp
  have g: "get_size b sfx =
      get_size_loop (PyFloat (of_nat (round53 (nat b)) / 1024))
        [''K'', ''M'', ''G'', ''T'', ''P''] sfx"
    unfolding get_size_from_factor [OF b'] using no by (simp only: if_False)
  from float_loop_shape [of "[''K'', ''M'', ''G'', ''T'', ''P'']"
      "of_nat (round53 (nat b)) / 1024" sfx]
  obtain k u where u: "u \<in> set [''K'', ''M'', ''G'', ''T'', ''P''] \<union> {''P''}"
    and eq: "get_size_loop (PyFloat (of_nat (round53 (nat b)) / 1024))
        [''K'', ''M'', ''G'', ''T'', ''P''] sfx =
        Inr (fmt2f (of_nat (round53 (nat b)) / 1024 / 1024 ^ k) @ u @ sfx)"
    by blast
  from u have "u \<in> {[], ''K'', ''M'', ''G'', ''T'', ''P''}" by auto
  with eq g show ?thesis by metis
qed

lemma round53_rat_small:
  assumes "0 \<le> b" "b < 2 ^ 53"
  shows "(of_nat (round53 (nat b)) :: rat) = of_int b"
proof -
  have "nat b < 2 ^ 53" using assms by simp
  then have "round53 (nat b) = nat b" by (rule round53_small)
  then show ?thesis using assms(1) by simp
qed

lemma round53_rat_error:
  assumes "0 \<le> b"
  shows "\<bar>(of_nat (round53 (nat b)) :: rat) - of_int b\<bar> * 2 ^ 53 \<le> of_int b"
proof -
  have "\<bar>int (round53 (nat b)) - int (nat b)\<bar> * 2 ^ 53 \<le> int (nat b)"
    by (rule round53_error)
  then have i: "\<bar>int (round53 (nat b)) - b\<bar> * 2 ^ 53 \<le> b" using assms by simp
  have "(of_int (\<bar>int (round53 (nat b)) - b\<bar> * 2 ^ 53) :: rat) \<le> of_int b"
    using i by (simp only: of_int_le_iff)
  then show ?thesis by simp
qed

lemma round53_rat_ge:
  assumes "2 ^ k \<le> b"
  shows "(2::rat) ^ k \<le> of_nat (round53 (nat b))"
proof -
  have "(2::nat) ^ k \<le> nat b" using assms by (simp add: le_nat_iff)
  then have "2 ^ k \<le> round53 (nat b)" by (rule round53_ge_pow)
  then have "(of_nat (2 ^ k) :: rat) \<le> of_nat (round53 (nat b))" by (simp only: of_nat_le_iff)
  then show ?thesis by simp
qed

lemma round53_rat_le:
  assumes "b < 2 ^ k"
  shows "(of_nat (round53 (nat b)) :: rat) \<le> 2 ^ k"
proof -
  have "nat b < 2 ^ k" using assms by (simp add: nat_less_iff)
  then have "round53 (nat b) \<le> 2 ^ k" by (rule round53_le_pow)
  then have "(of_nat (round53 (nat b)) :: rat) \<le> of_nat (2 ^ k)" by (simp only: of_nat_le_iff)
  then show ?thesis by simp
qed

lemma get_size_1536: "get_size 1536 ''B'' = Inr ''1.50KB''"
proof -
  have "get_size 1536 ''B'' =
      Inr (fmt2f (1536 / 1024 ^ Suc 0) @ [''K'', ''M'', ''G'', ''T'', ''P''] ! 0 @ ''B'')"
    by (rule get_size_unit) (simp_all add: round53_small)
  moreover have "(1536::rat) / 1024 ^ Suc 0 = 3 / 2" by simp
  ultimately show ?thesis by (simp add: fmt2f_3_2)
qed

lemma get_size_0: "get_size 0 ''B'' = Inr ''0.00B''"
  using get_size_below_factor [of 0 "''B''"] by (simp add: fmt2f_0)

lemma get_size_1023: "get_size 1023 ''B'' = Inr ''1023.00B''"
  using get_size_below_factor [of 1023 "''B''"] by (simp add: fmt2f_1023)

lemma get_size_5767168: "get_size 5767168 ''B'' = Inr ''5.50MB''"
proof -
  have "get_size 5767168 ''B'' =
      Inr (fmt2f (5767168 / 1024 ^ Suc 1) @ [''K'', ''M'', ''G'', ''T'', ''P''] ! 1 @ ''B'')"
    by (rule get_size_unit) (simp_all add: round53_small)
  moreover have "(5767168::rat) / 1024 ^ Suc 1 = 11 / 2" by simp
  ultimately show ?thesis by (simp add: fmt2f_11_2)
qed

lemma get_size_2_60_1: "get_size 1152921504606846975 ''B'' = Inr ''1.00PB''"
proof -
  have "get_size 1152921504606846975 ''B'' =
      Inr (fmt2f (1152921504606846976 / 1024 ^ 6) @ ''P'' @ ''B'')"
    by (rule get_size_beyond_P) (simp_all add: round53_2_60_1)
  moreover have "(1152921504606846976::rat) / 1024 ^ 6 = 1" by simp
  ultimately show ?thesis by (simp add: fmt2f_1)
qed

lemma get_size_8_02: "get_size 9024087753343631 ''B'' = Inr ''8.02PB''"
proof -
  have "get_size 9024087753343631 ''B'' =
      Inr (fmt2f (9024087753343632 / 1024 ^ Suc 4) @
           [''K'', ''M'', ''G'', ''T'', ''P''] ! 4 @ ''B'')"
    by (rule get_size_unit) (simp_all add: round53_8_02)
  then show ?thesis using fmt2f_8_02 by simp
qed

lemma get_size_1_00: "get_size 1158686112129881211 ''B'' = Inr ''1.00PB''"
proof -
  have "get_size 1158686112129881211 ''B'' =
      Inr (fmt2f (1158686112129881088 / 1024 ^ 6) @ ''P'' @ ''B'')"
    by (rule get_size_beyond_P) (simp_all add: round53_1_00)
  then show ?thesis using fmt2f_1_00 by simp
qed

lemma get_size_1024_6: "get_size (1024 ^ 6) ''B'' = Inr ''1.00PB''"
proof -
  have r: "round53 1152921504606846976 = 1152921504606846976"
    by (simp add: round53_def Let_def bit_length.simps)
  have "get_size 1152921504606846976 ''B'' =
      Inr (fmt2f (1152921504606846976 / 1024 ^ 6) @ ''P'' @ ''B'')"
    by (rule get_size_beyond_P) (simp_all add: r)
  moreover have "(1152921504606846976::rat) / 1024 ^ 6 = 1" by simp
  ultimately show ?thesis by (simp add: fmt2f_1)
qed

lemma get_size_1024_7: "get_size (1024 ^ 7) ''B'' = Inr ''1024.00PB''"
proof -
  have r: "round53 1180591620717411303424 = 1180591620717411303424"
    by (simp add: round53_def Let_def bit_length.simps)
  have "get_size 1180591620717411303424 ''B'' =
      Inr (fmt2f (1180591620717411303424 / 1024 ^ 6) @ ''P'' @ ''B'')"
    by (rule get_size_beyond_P) (simp_all add: r)
  moreover have "(1180591620717411303424::rat) / 1024 ^ 6 = 1024" by simp
  ultimately show ?thesis by (simp add: fmt2f_1024)
qed

lemma get_size_1205_63: "get_size (1234567 * 2 ^ 50) ''B'' = Inr ''1205.63PB''"
proof -
  have r: "round53 1389998870290977783808 = 1389998870290977783808"
    by (simp add: round53_def Let_def bit_length.simps)
  have "get_size 1389998870290977783808 ''B'' =
      Inr (fmt2f (1389998870290977783808 / 1024 ^ 6) @ ''P'' @ ''B'')"
    by (rule get_size_beyond_P) (simp_all add: r)
  moreover have "(1389998870290977783808::rat) / 1024 ^ 6 = 1234567 / 1024" by simp
  ultimately show ?thesis by (simp add: fmt2f_1234567_1024)
qed

lemma get_size_2_1034: "get_size (2 ^ 1034) sfx = Inl OverflowError"
proof (rule get_size_raises)
  show "(1024::int) \<le> 2 ^ 1034" by simp
  have "(2::int) ^ 1034 \<le> 2 ^ 1034" by simp
  then show "(2::rat) ^ 1034 \<le> of_nat (round53 (nat (2 ^ 1034)))" by (rule round53_rat_ge)
qed

lemma get_size_2_1040: "get_size (2 ^ 1040) sfx = Inl OverflowError"
proof (rule get_size_raises)
  show "(1024::int) \<le> 2 ^ 1040" by simp
  have "(2::int) ^ 1034 \<le> 2 ^ 1040" by simp
  then show "(2::rat) ^ 1034 \<le> of_nat (round53 (nat (2 ^ 1040)))" by (rule round53_rat_ge)
qed

text \<open>
  The claim C8 as stated, for every nonnegative byte count, fails: for the byte count
  \<open>2 ^ 1034\<close> the first division \<open>bytes /= factor\<close> has no finite double as its result,
  and \<open>get_size\<close> raises \<open>OverflowError\<close> instead of rendering a value.
\<close>

theorem get_size_every_count_counterexample:
  "get_size (2 ^ 1034) ''B'' = Inl OverflowError"
  by (rule get_size_2_1034)

text \<open>
  Claim C8, amended. Let \<open>v\<close> be the byte count \<open>b\<close> rounded to 53 significant bits, which
  is \<open>b\<close> itself below \<open>2 ^ 53\<close> and differs from \<open>b\<close> by at most \<open>b / 2 ^ 53\<close> always. For every
  nonnegative \<open>b\<close> with \<open>v < 2 ^ 1034\<close>, \<open>get_size\<close> renders \<open>v\<close> scaled by successive
  divisions by 1024, with two decimal places, followed by the unit and the suffix:
  \<open>b\<close> itself with no unit letter below 1024; \<open>v / 1024\<close> with \<open>K\<close> below \<open>1024 ^ 2\<close>;
  \<open>v / 1024 ^ 2\<close> with \<open>M\<close> below \<open>1024 ^ 3\<close>; \<open>v / 1024 ^ 3\<close> with \<open>G\<close> below \<open>1024 ^ 4\<close>;
  \<open>v / 1024 ^ 4\<close> with \<open>T\<close> below \<open>1024 ^ 5\<close>; \<open>v / 1024 ^ 5\<close> with \<open>P\<close> below \<open>1024 ^ 6\<close>;
  and \<open>v / 1024 ^ 6\<close> with \<open>P\<close> from there on. When \<open>v\<close> is \<open>2 ^ 1034\<close> or more,
  \<open>OverflowError\<close> is raised. In particular 1536 renders as \<open>1.50KB\<close> and 0 as \<open>0.00B\<close>;
  \<open>2 ^ 60 - 1\<close>, which rounds to \<open>2 ^ 60\<close>, renders as \<open>1.00PB\<close>.
\<close>

theorem get_size_scaled:
  "(0 \<le> b \<longrightarrow>
     (let v = of_nat (round53 (nat b)) :: rat in
        (b < 2 ^ 53 \<longrightarrow> v = of_int b) \<and>
        \<bar>v - of_int b\<bar> * 2 ^ 53 \<le> of_int b \<and>
        (b < 1024 \<longrightarrow> get_size b sfx = Inr (fmt2f (of_int b) @ sfx)) \<and>
        (1024 \<le> b \<and> v < 1024 ^ 2 \<longrightarrow>
           get_size b sfx = Inr (fmt2f (v / 1024) @ ''K'' @ sfx)) \<and>
        (1024 ^ 2 \<le> v \<and> v < 1024 ^ 3 \<longrightarrow>
           get_size b sfx = Inr (fmt2f (v / 1024 ^ 2) @ ''M'' @ sfx)) \<and>
        (1024 ^ 3 \<le> v \<and> v < 1024 ^ 4 \<longrightarrow>
           get_size b sfx = Inr (fmt2f (v / 1024 ^ 3) @ ''G'' @ sfx)) \<and>
        (1024 ^ 4 \<le> v \<and> v < 1024 ^ 5 \<longrightarrow>
           get_size b sfx = Inr (fmt2f (v / 1024 ^ 4) @ ''T'' @ sfx)) \<and>
        (1024 ^ 5 \<le> v \<and> v < 1024 ^ 6 \<longrightarrow>
           get_size b sfx = Inr (fmt2f (v / 1024 ^ 5) @ ''P'' @ sfx)) \<and>
        (1024 ^ 6 \<le> v \<and> v < 2 ^ 1034 \<longrightarrow>
           get_size b sfx = Inr (fmt2f (v / 1024 ^ 6) @ ''P'' @ sfx)) \<and>
        (2 ^ 1034 \<le> v \<longrightarrow> get_size b sfx = Inl OverflowError) \<and>
        (\<forall>k. two_decimals (fmt2f (v / 1024 ^ k))))) \<and>
   get_size 1536 ''B'' = Inr ''1.50KB'' \<and>
   get_size 0 ''B'' = Inr ''0.00B'' \<and>
   get_size 1023 ''B'' = Inr ''1023.00B'' \<and>
   get_size 5767168 ''B'' = Inr ''5.50MB'' \<and>
   get_size 1152921504606846975 ''B'' = Inr ''1.00PB'' \<and>
   get_size 9024087753343631 ''B'' = Inr ''8.02PB''"
proof -
  define v :: rat where "v = of_nat (round53 (nat b))"
  have main: "(b < 2 ^ 53 \<longrightarrow> v = of_int b) \<and>
        \<bar>v - of_int b\<bar> * 2 ^ 53 \<le> of_int b \<and>
        (b < 1024 \<longrightarrow> get_size b sfx = Inr (fmt2f (of_int b) @ sfx)) \<and>
        (1024 \<le> b \<and> v < 1024 ^ 2 \<longrightarrow>
           get_size b sfx = Inr (fmt2f (v / 1024) @ ''K'' @ sfx)) \<and>
        (1024 ^ 2 \<le> v \<and> v < 1024 ^ 3 \<longrightarrow>
           get_size b sfx = Inr (fmt2f (v / 1024 ^ 2) @ ''M'' @ sfx)) \<and>
        (1024 ^ 3 \<le> v \<and> v < 1024 ^ 4 \<longrightarrow>
           get_size b sfx = Inr (fmt2f (v / 1024 ^ 3) @ ''G'' @ sfx)) \<and>
        (1024 ^ 4 \<le> v \<and> v < 1024 ^ 5 \<longrightarrow>
           get_size b sfx = Inr (fmt2f (v / 1024 ^ 4) @ ''T'' @ sfx)) \<and>
        (1024 ^ 5 \<le> v \<and> v < 1024 ^ 6 \<longrightarrow>
           get_size b sfx = Inr (fmt2f (v / 1024 ^ 5) @ ''P'' @ sfx)) \<and>
        (1024 ^ 6 \<le> v \<and> v < 2 ^ 1034 \<longrightarrow>
           get_size b sfx = Inr (fmt2f (v / 1024 ^ 6) @ ''P'' @ sfx)) \<and>
        (2 ^ 1034 \<le> v \<longrightarrow> get_size b sfx = Inl OverflowError) \<and>
        (\<forall>k. two_decimals (fmt2f (v / 1024 ^ k)))"
    if b0: "0 \<le> b"
  proof -
    have vd: "v = of_nat (round53 (nat b))" by (rule v_def)
    have small: "v = of_int b" if "b < 2 ^ 53"
      unfolding v_def using b0 that by (rule round53_rat_small)
    have big: "1024 \<le> b" if "1024 \<le> v"
    proof (rule ccontr)
      assume "\<not> 1024 \<le> b"
      then have "b < 1024" by simp
      then have "b < 2 ^ 53" by simp
      then have "v = of_int b" by (rule small)
      with \<open>b < 1024\<close> that show False by simp
    qed
    have c1: "\<bar>v - of_int b\<bar> * 2 ^ 53 \<le> of_int b"
      unfolding v_def using b0 by (rule round53_rat_error)
    have c2: "get_size b sfx = Inr (fmt2f (of_int b) @ sfx)" if "b < 1024"
      using b0 that by (rule get_size_below_factor)
    have unit: "get_size b sfx =
        Inr (fmt2f (v / 1024 ^ Suc k) @ [''K'', ''M'', ''G'', ''T'', ''P''] ! k @ sfx)"
      if "k < 5" "1024 ^ Suc k \<le> v" "v < 1024 ^ Suc (Suc k)" for k
    proof -
      have "(1024::rat) \<le> 1024 ^ Suc k" by (rule self_le_power) simp_all
      from this that(2) have "1024 \<le> v" by (rule order_trans)
      then have "1024 \<le> b" by (rule big)
      then show ?thesis using vd that(1) _ that(3)
        by (rule get_size_unit) (use that(2) in simp)
    qed
    have cK: "get_size b sfx = Inr (fmt2f (v / 1024) @ ''K'' @ sfx)"
      if "1024 \<le> b" "v < 1024 ^ 2"
    proof -
      have "get_size b sfx =
          Inr (fmt2f (v / 1024 ^ Suc 0) @ [''K'', ''M'', ''G'', ''T'', ''P''] ! 0 @ sfx)"
        using that(1) vd by (rule get_size_unit) (use that(2) in simp_all)
      then show ?thesis by simp
    qed
    have cM: "get_size b sfx = Inr (fmt2f (v / 1024 ^ 2) @ ''M'' @ sfx)"
      if "1024 ^ 2 \<le> v" "v < 1024 ^ 3"
      using unit [of 1] that by simp
    have cG: "get_size b sfx = Inr (fmt2f (v / 1024 ^ 3) @ ''G'' @ sfx)"
      if "1024 ^ 3 \<le> v" "v < 1024 ^ 4"
      using unit [of 2] that by simp
    have cT: "get_size b sfx = Inr (fmt2f (v / 1024 ^ 4) @ ''T'' @ sfx)"
      if "1024 ^ 4 \<le> v" "v < 1024 ^ 5"
      using unit [of 3] that by simp
    have cP: "get_size b sfx = Inr (fmt2f (v / 1024 ^ 5) @ ''P'' @ sfx)"
      if "1024 ^ 5 \<le> v" "v < 1024 ^ 6"
      using unit [of 4] that by simp
    have cO: "get_size b sfx = Inr (fmt2f (v / 1024 ^ 6) @ ''P'' @ sfx)"
      if "1024 ^ 6 \<le> v" "v < 2 ^ 1034"
    proof -
      have "1024 \<le> v" using that(1) by simp
      then have "1024 \<le> b" by (rule big)
      then show ?thesis using vd that by (rule get_size_beyond_P)
    qed
    have cE: "get_size b sfx = Inl OverflowError" if "2 ^ 1034 \<le> v"
    proof -
      have "(1024::rat) \<le> 2 ^ 1034" by simp
      from this that have "1024 \<le> v" by (rule order_trans)
      then have "1024 \<le> b" by (rule big)
      then show ?thesis using that unfolding v_def by (rule get_size_raises)
    qed
    have c2d: "two_decimals (fmt2f (v / 1024 ^ k))" for k
    proof (rule fmt2f_two_decimals)
      have "0 \<le> v" unfolding v_def by simp
      then show "0 \<le> v / 1024 ^ k" by simp
    qed
    from small c1 c2 cK cM cG cT cP cO cE c2d show ?thesis by blast
  qed
  then have "0 \<le> b \<longrightarrow>
     (let v = of_nat (round53 (nat b)) :: rat in
        (b < 2 ^ 53 \<longrightarrow> v = of_int b) \<and>
        \<bar>v - of_int b\<bar> * 2 ^ 53 \<le> of_int b \<and>
        (b < 1024 \<longrightarrow> get_size b sfx = Inr (fmt2f (of_int b) @ sfx)) \<and>
        (1024 \<le> b \<and> v < 1024 ^ 2 \<longrightarrow>
           get_size b sfx = Inr (fmt2f (v / 1024) @ ''K'' @ sfx)) \<and>
        (1024 ^ 2 \<le> v \<and> v < 1024 ^ 3 \<longrightarrow>
           get_size b sfx = Inr (fmt2f (v / 1024 ^ 2) @ ''M'' @ sfx)) \<and>
        (1024 ^ 3 \<le> v \<and> v < 1024 ^ 4 \<longrightarrow>
           get_size b sfx = Inr (fmt2f (v / 1024 ^ 3) @ ''G'' @ sfx)) \<and>
        (1024 ^ 4 \<le> v \<and> v < 1024 ^ 5 \<longrightarrow>
           get_size b sfx = Inr (fmt2f (v / 1024 ^ 4) @ ''T'' @ sfx)) \<and>
        (1024 ^ 5 \<le> v \<and> v < 1024 ^ 6 \<longrightarrow>
           get_size b sfx = Inr (fmt2f (v / 1024 ^ 5) @ ''P'' @ sfx)) \<and>
        (1024 ^ 6 \<le> v \<and> v < 2 ^ 1034 \<longrightarrow>
           get_size b sfx = Inr (fmt2f (v / 1024 ^ 6) @ ''P'' @ sfx)) \<and>
        (2 ^ 1034 \<le> v \<longrightarrow> get_size b sfx = Inl OverflowError) \<and>
        (\<forall>k. two_decimals (fmt2f (v / 1024 ^ k))))"
    unfolding Let_def v_def by (rule impI)
  with get_size_1536 get_size_0 get_size_1023 get_size_5767168 get_size_2_60_1 get_size_8_02
  show ?thesis by (intro conjI)
qed

theorem get_size_scaled_witness:
  "(0::int) \<le> 1536 \<and> (1024::int) \<le> 1536 \<and>
   (of_nat (round53 (nat 1536)) :: rat) < 1024 ^ 2 \<and>
   get_size 1536 ''B'' = Inr (fmt2f (of_nat (round53 (nat 1536)) / 1024) @ ''K'' @ ''B'')"
proof -
  have r: "(of_nat (round53 (nat 1536)) :: rat) = 1536" by (simp add: round53_small)
  have h: "(0::int) \<le> 1536" "(1024::int) \<le> 1536" "(1536::rat) < 1024 ^ 2" by simp_all
  from get_size_scaled [of 1536 "''B''"] h(1)
  have "1024 \<le> (1536::int) \<and> (1536::rat) < 1024 ^ 2 \<longrightarrow>
      get_size 1536 ''B'' = Inr (fmt2f (1536 / 1024) @ ''K'' @ ''B'')"
    unfolding Let_def r by blast
  with h have "get_size 1536 ''B'' = Inr (fmt2f (1536 / 1024) @ ''K'' @ ''B'')" by blast
  with h show ?thesis unfolding r by blast
qed

text \<open>
  The claim C10 as stated fails in two of its parts. The value rendered is not the input
  divided by \<open>1024 ^ 6\<close>: for 1158686112129881211 bytes that quotient lies above 1.005 and has
  the two-decimal rendering \<open>1.01\<close>, but the first division rounds the input to a double
  and \<open>get_size\<close> returns \<open>1.00PB\<close>. And the function does not return for every
  nonnegative input: for \<open>2 ^ 1040\<close> it raises \<open>OverflowError\<close>.
\<close>

theorem get_size_exact_quotient_counterexample:
  "get_size 1158686112129881211 ''B'' = Inr ''1.00PB'' \<and>
   fmt2f (1158686112129881211 / 1024 ^ 6) @ ''PB'' = ''1.01PB'' \<and>
   get_size (2 ^ 1040) ''B'' = Inl OverflowError"
  using get_size_1_00 fmt2f_1_01 get_size_2_1040 [of "''B''"] by simp

text \<open>
  Claim C10, amended. Let \<open>v\<close> be the byte count \<open>b\<close> rounded to 53 significant bits; it
  differs from \<open>b\<close> by at most \<open>b / 2 ^ 53\<close>. For every \<open>b\<close> of at least \<open>1024 ^ 6\<close>, \<open>v\<close> is at
  least \<open>1024 ^ 6\<close> too, and when \<open>v < 2 ^ 1034\<close> (which holds for every \<open>b\<close> below \<open>2 ^ 1033\<close>)
  \<open>get_size\<close> returns \<open>v / 1024 ^ 6\<close> rendered with two decimals, followed by the unit \<open>P\<close>
  and the suffix: the rendered value is at least 1 and is not kept below 1024 (\<open>1024 ^ 7\<close>
  renders as \<open>1024.00PB\<close>). When \<open>v\<close> is \<open>2 ^ 1034\<close> or more (which holds for every \<open>b\<close> from
  \<open>2 ^ 1034\<close> on) \<open>get_size\<close> raises \<open>OverflowError\<close>. For every nonnegative input below
  \<open>2 ^ 1033\<close> the function returns a rendering whose unit is none or one of K, M, G, T, P:
  the scale never goes beyond \<open>P\<close>.
\<close>

theorem get_size_overflow:
  "(1024 ^ 6 \<le> b \<longrightarrow>
     (let v = of_nat (round53 (nat b)) :: rat in
        1024 ^ 6 \<le> v \<and>
        \<bar>v - of_int b\<bar> * 2 ^ 53 \<le> of_int b \<and>
        (v < 2 ^ 1034 \<longrightarrow>
           get_size b sfx = Inr (fmt2f (v / 1024 ^ 6) @ ''P'' @ sfx) \<and>
           1 \<le> v / 1024 ^ 6 \<and> two_decimals (fmt2f (v / 1024 ^ 6))) \<and>
        (2 ^ 1034 \<le> v \<longrightarrow> get_size b sfx = Inl OverflowError) \<and>
        (b < 2 ^ 1033 \<longrightarrow> v < 2 ^ 1034) \<and>
        (2 ^ 1034 \<le> b \<longrightarrow> 2 ^ 1034 \<le> v))) \<and>
   (0 \<le> c \<and> c < 2 ^ 1033 \<longrightarrow>
     (\<exists>x. \<exists>u\<in>{[], ''K'', ''M'', ''G'', ''T'', ''P''}.
        get_size c sfx = Inr (fmt2f x @ u @ sfx))) \<and>
   (2 ^ 1034 \<le> c \<longrightarrow> get_size c sfx = Inl OverflowError) \<and>
   get_size (1024 ^ 6) ''B'' = Inr ''1.00PB'' \<and>
   get_size (1024 ^ 7) ''B'' = Inr ''1024.00PB'' \<and>
   get_size (1234567 * 2 ^ 50) ''B'' = Inr ''1205.63PB''"
proof -
  define v :: rat where "v = of_nat (round53 (nat b))"
  have main: "1024 ^ 6 \<le> v \<and>
        \<bar>v - of_int b\<bar> * 2 ^ 53 \<le> of_int b \<and>
        (v < 2 ^ 1034 \<longrightarrow>
           get_size b sfx = Inr (fmt2f (v / 1024 ^ 6) @ ''P'' @ sfx) \<and>
           1 \<le> v / 1024 ^ 6 \<and> two_decimals (fmt2f (v / 1024 ^ 6))) \<and>
        (2 ^ 1034 \<le> v \<longrightarrow> get_size b sfx = Inl OverflowError) \<and>
        (b < 2 ^ 1033 \<longrightarrow> v < 2 ^ 1034) \<and>
        (2 ^ 1034 \<le> b \<longrightarrow> 2 ^ 1034 \<le> v)"
    if h: "1024 ^ 6 \<le> b"
  proof -
    have vd: "v = of_nat (round53 (nat b))" by (rule v_def)
    have b0: "0 \<le> b" and b1: "1024 \<le> b" using h by simp_all
    have "2 ^ 60 \<le> b" using h by simp
    then have "(2::rat) ^ 60 \<le> v" unfolding v_def by (rule round53_rat_ge)
    then have lo: "1024 ^ 6 \<le> v" by simp
    have er: "\<bar>v - of_int b\<bar> * 2 ^ 53 \<le> of_int b"
      unfolding v_def using b0 by (rule round53_rat_error)
    have ret: "get_size b sfx = Inr (fmt2f (v / 1024 ^ 6) @ ''P'' @ sfx) \<and>
        1 \<le> v / 1024 ^ 6 \<and> two_decimals (fmt2f (v / 1024 ^ 6))"
      if hi: "v < 2 ^ 1034"
    proof (intro conjI)
      show "get_size b sfx = Inr (fmt2f (v / 1024 ^ 6) @ ''P'' @ sfx)"
        using b1 vd lo hi by (rule get_size_beyond_P)
      have "(0::rat) < 1024 ^ 6" by simp
      then show one: "1 \<le> v / 1024 ^ 6" using lo by (simp only: le_divide_eq_1_pos)
      then have "0 \<le> v / 1024 ^ 6" by simp
      then show "two_decimals (fmt2f (v / 1024 ^ 6))" by (rule fmt2f_two_decimals)
    qed
    have rai: "get_size b sfx = Inl OverflowError" if "2 ^ 1034 \<le> v"
      using b1 that unfolding v_def by (rule get_size_raises)
    have up: "v < 2 ^ 1034" if "b < 2 ^ 1033"
    proof -
      from that have "v \<le> 2 ^ 1033" unfolding v_def by (rule round53_rat_le)
      moreover have "(2::rat) ^ 1033 < 2 ^ 1034" by simp
      ultimately show ?thesis by (rule le_less_trans)
    qed
    have dn: "2 ^ 1034 \<le> v" if "2 ^ 1034 \<le> b"
      using that unfolding v_def by (rule round53_rat_ge)
    from lo er ret rai up dn show ?thesis by blast
  qed
  then have a: "1024 ^ 6 \<le> b \<longrightarrow>
     (let v = of_nat (round53 (nat b)) :: rat in
        1024 ^ 6 \<le> v \<and>
        \<bar>v - of_int b\<bar> * 2 ^ 53 \<le> of_int b \<and>
        (v < 2 ^ 1034 \<longrightarrow>
           get_size b sfx = Inr (fmt2f (v / 1024 ^ 6) @ ''P'' @ sfx) \<and>
           1 \<le> v / 1024 ^ 6 \<and> two_decimals (fmt2f (v / 1024 ^ 6))) \<and>
        (2 ^ 1034 \<le> v \<longrightarrow> get_size b sfx = Inl OverflowError) \<and>
        (b < 2 ^ 1033 \<longrightarrow> v < 2 ^ 1034) \<and>
        (2 ^ 1034 \<le> b \<longrightarrow> 2 ^ 1034 \<le> v))"
    unfolding Let_def v_def by (rule impI)
  have b: "0 \<le> c \<and> c < 2 ^ 1033 \<longrightarrow>
     (\<exists>x. \<exists>u\<in>{[], ''K'', ''M'', ''G'', ''T'', ''P''}.
        get_size c sfx = Inr (fmt2f x @ u @ sfx))"
  proof (intro impI, elim conjE)
    assume c0: "0 \<le> c" and c1: "c < 2 ^ 1033"
    from c1 have "(of_nat (round53 (nat c)) :: rat) \<le> 2 ^ 1033" by (rule round53_rat_le)
    moreover have "(2::rat) ^ 1033 < 2 ^ 1034" by simp
    ultimately have "(of_nat (round53 (nat c)) :: rat) < 2 ^ 1034" by (rule le_less_trans)
    with c0 show "\<exists>x. \<exists>u\<in>{[], ''K'', ''M'', ''G'', ''T'', ''P''}.
        get_size c sfx = Inr (fmt2f x @ u @ sfx)"
      by (rule get_size_returns)
  qed
  have c: "2 ^ 1034 \<le> c \<longrightarrow> get_size c sfx = Inl OverflowError"
  proof
    assume h: "2 ^ 1034 \<le> c"
    have "(1024::int) \<le> 2 ^ 1034" by simp
    from this h have "1024 \<le> c" by (rule order_trans)
    moreover from h have "(2::rat) ^ 1034 \<le> of_nat (round53 (nat c))" by (rule round53_rat_ge)
    ultimately show "get_size c sfx = Inl OverflowError" by (rule get_size_raises)
  qed
  from a b c get_size_1024_6 get_size_1024_7 get_size_1205_63 show ?thesis by (intro conjI)
qed

theorem get_size_overflow_witness:
  "(1024::int) ^ 6 \<le> 1729382256910270464 \<and>
   (of_nat (round53 (nat 1729382256910270464)) :: rat) < 2 ^ 1034 \<and>
   get_size 1729382256910270464 ''B'' = Inr ''1.50PB''"
proof -
  have rn: "round53 1729382256910270464 = 1729382256910270464"
    by (simp add: round53_def Let_def bit_length.simps)
  have r: "(of_nat (round53 (nat 1729382256910270464)) :: rat) = 1729382256910270464"
    by (simp add: rn)
  have h: "(1024::int) ^ 6 \<le> 1729382256910270464"
    "(1729382256910270464::rat) < 2 ^ 1034" by simp_all
  from get_size_overflow [of 1729382256910270464 "''B''" 0] h(1)
  have "(1729382256910270464::rat) < 2 ^ 1034 \<longrightarrow>
      get_size 1729382256910270464 ''B'' =
        Inr (fmt2f (1729382256910270464 / 1024 ^ 6) @ ''P'' @ ''B'')"
    unfolding Let_def r by blast
  with h(2) have "get_size 1729382256910270464 ''B'' =
        Inr (fmt2f (1729382256910270464 / 1024 ^ 6) @ ''P'' @ ''B'')" by blast
  moreover have "(1729382256910270464::rat) / 1024 ^ 6 = 3 / 2" by simp
  ultimately have "get_size 1729382256910270464 ''B'' = Inr ''1.50PB''"
    by (simp add: fmt2f_3_2)
  with h show ?thesis unfolding r by blast
qed

subsection \<open>I/O rates\<close>



subsection \<open>Creating the log\<close>

text \<open>
  Claim C7. When the log file exists, \<open>setup_csv\<close> leaves the whole file system, and so the
  file's contents, unchanged; when it does not exist, the file is created with exactly one
  row, the header, and no other path changes; hence running \<open>setup_csv\<close> a second time
  changes nothing.
\<close>

theorem setup_csv_idempotent:
  "(fs LOG_FILE \<noteq> None \<longrightarrow> setup_csv n fs = fs) \<and>
   (fs LOG_FILE = None \<longrightarrow>
      setup_csv n fs LOG_FILE = Some [map StrV (header n)] \<and>
      (\<forall>p. p \<noteq> LOG_FILE \<longrightarrow> setup_csv n fs p = fs p)) \<and>
   setup_csv n (setup_csv n fs) = setup_csv n fs"
  by (simp add: setup_csv_def)

theorem setup_csv_idempotent_witness:
  "existing_log LOG_FILE \<noteq> None \<and> setup_csv 5 existing_log = existing_log \<and>
   no_log LOG_FILE = None \<and> setup_csv 5 no_log LOG_FILE = Some [map StrV (header 5)] \<and>
   ''other.csv'' \<noteq> LOG_FILE \<and> setup_csv 5 no_log ''other.csv'' = no_log ''other.csv''"
proof -
  have a: "existing_log LOG_FILE \<noteq> None" by (simp add: existing_log_def)
  have b: "no_log LOG_FILE = None" by (simp add: no_log_def)
  have c: "''other.csv'' \<noteq> LOG_FILE" by (simp add: LOG_FILE_def)
  from setup_csv_idempotent [of existing_log 5] a
  have 1: "setup_csv 5 existing_log = existing_log" by blast
  from setup_csv_idempotent [of no_log 5] b c
  have 2: "setup_csv 5 no_log LOG_FILE = Some [map StrV (header 5)]"
    and 3: "setup_csv 5 no_log ''other.csv'' = no_log ''other.csv''" by blast+
  from a b c 1 2 3 show ?thesis by blast
qed

subsection \<open>Temperature lookup\<close>

text \<open>
  Whenever the \<open>coretemp\<close> group is present and its first entry is a \<open>shwtemp\<close> tuple, the
  call of \<open>get\<close> on the tuple raises \<open>AttributeError\<close>, and the handler turns it into the
  sentinel: the reading is never used.
\<close>

lemma coretemp_tuple_never_read:
  "map_of temps ''coretemp'' = Some (Shwtemp l c h k # rest) \<Longrightarrow>
   read_cpu_temp (Some temps) = Inr (StrV ''N/A'')"
  by (simp add: read_cpu_temp_def cpu_temp_body_def index0_def entry_get_def dict_get_def)

text \<open>
  Claim C5, evaluated where the code departs from it. With the sensor data
  \<open>{'coretemp': [shwtemp('Core 0', 45.0, 100.0, 100.0)]}\<close> the claim asks for the reading
  45; the code yields the sentinel \<open>N/A\<close>. The fallback path, which reads the attribute
  \<open>current\<close>, does deliver the reading of the first group when \<open>coretemp\<close> is absent.
\<close>

theorem coretemp_present_yields_sentinel:
  "read_cpu_temp (Some [(''coretemp'', [Shwtemp ''Core 0'' 45 (Some 100) (Some 100)])])
     = Inr (StrV ''N/A'') \<and>
   read_cpu_temp (Some [(''acpitz'', [Shwtemp [] 38 None None])]) = Inr (FloatV 38)"
  by (simp add: read_cpu_temp_def cpu_temp_body_def index0_def entry_get_def entry_current_def
      dict_get_def)

subsection \<open>Process enumeration\<close>

lemma infos_read_Nil: "infos_read [] = []"
  by (simp add: infos_read_def map_filter_simps)

lemma infos_read_Inl: "infos_read (Inl e # ps) = infos_read ps"
  by (simp add: infos_read_def map_filter_simps)

lemma infos_read_Inr: "infos_read (Inr i # ps) = i # infos_read ps"
  by (simp add: infos_read_def map_filter_simps)

lemma proc_entry_Inl: "proc_entry t (Inl e) = Inl e"
  by (simp add: proc_entry_def)

lemma proc_entry_Inr_cases:
  "proc_entry t (Inr i) = Inl AttributeError \<or> (\<exists>s. proc_entry t (Inr i) = Inr s)"
  by (simp add: proc_entry_def Let_def split: option.splits)

lemma proc_entry_exec_time:
  "proc_entry t (Inr i) = Inr s \<Longrightarrow>
   pid s = info_pid i \<and> execution_time_s s = t - info_create_time i"
  by (auto simp: proc_entry_def Let_def split: option.splits)

lemma enumerate_procs_Inr:
  "enumerate_procs t procs acc = Inr ps \<Longrightarrow>
   \<exists>qs. ps = acc @ qs \<and> list_all2 (built_from t) qs (infos_read procs)"
proof (induction procs arbitrary: acc)
  case Nil
  then show ?case by (simp add: infos_read_Nil)
next
  case (Cons p procs)
  show ?case
  proof (cases p)
    case (Inl e)
    with Cons.prems have "enumerate_procs t procs acc = Inr ps"
      by (simp add: proc_entry_Inl split: if_splits)
    from Cons.IH [OF this] show ?thesis by (simp add: Inl infos_read_Inl)
  next
    case (Inr i)
    from proc_entry_Inr_cases [of t i] show ?thesis
    proof
      assume "proc_entry t (Inr i) = Inl AttributeError"
      with Cons.prems Inr show ?thesis by (simp add: transient_def)
    next
      assume "\<exists>s. proc_entry t (Inr i) = Inr s"
      then obtain s where s: "proc_entry t (Inr i) = Inr s" ..
      with Cons.prems Inr have "enumerate_procs t procs (acc @ [s]) = Inr ps" by simp
      from Cons.IH [OF this] obtain qs where
        "ps = (acc @ [s]) @ qs" and "list_all2 (built_from t) qs (infos_read procs)" by blast
      then have "ps = acc @ (s # qs)"
        and "list_all2 (built_from t) (s # qs) (infos_read (p # procs))"
        using s by (simp_all add: Inr infos_read_Inr built_from_def)
      then show ?thesis by blast
    qed
  qed
qed

lemma enumerate_procs_Inl:
  "enumerate_procs t procs acc = Inl e \<Longrightarrow> \<not> transient e"
proof (induction procs arbitrary: acc)
  case Nil
  then show ?case by simp
next
  case (Cons p procs)
  show ?case
  proof (cases "proc_entry t p")
    case (Inl e')
    show ?thesis
    proof (cases "transient e'")
      case True
      with Cons.prems Inl have "enumerate_procs t procs acc = Inl e" by simp
      then show ?thesis by (rule Cons.IH)
    next
      case False
      with Cons.prems Inl show ?thesis by simp
    qed
  next
    case (Inr s)
    with Cons.prems have "enumerate_procs t procs (acc @ [s]) = Inl e" by simp
    then show ?thesis by (rule Cons.IH)
  qed
qed

lemma enumerate_procs_total:
  "list_all readable_or_transient procs \<Longrightarrow> \<exists>ps. enumerate_procs t procs acc = Inr ps"
proof (induction procs arbitrary: acc)
  case Nil
  then show ?case by simp
next
  case (Cons p procs)
  then have rest: "list_all readable_or_transient procs" and p: "readable_or_transient p"
    by simp_all
  show ?case
  proof (cases p)
    case (Inl e)
    with p have "transient e" by (simp add: readable_or_transient_def)
    with Inl Cons.IH [OF rest, of acc] show ?thesis by (simp add: proc_entry_Inl)
  next
    case (Inr i)
    with p obtain mi where "info_memory_info i = Some mi"
      by (auto simp: readable_or_transient_def)
    then obtain s where "proc_entry t (Inr i) = Inr s"
      by (simp add: proc_entry_def Let_def)
    with Inr Cons.IH [OF rest, of "acc @ [s]"] show ?thesis by simp
  qed
qed

lemma built_from_aged_at: "built_from t s i \<Longrightarrow> aged_at t s i"
  unfolding built_from_def aged_at_def by (rule proc_entry_exec_time)

lemma enumerate_procs_no_memory_info:
  assumes "list_all readable_or_transient pre" and "info_memory_info i = None"
  shows "enumerate_procs t (pre @ Inr i # post) acc = Inl AttributeError"
  using assms(1)
proof (induction pre arbitrary: acc)
  case Nil
  show ?case by (simp add: proc_entry_def Let_def transient_def assms(2))
next
  case (Cons p pre)
  then have rest: "list_all readable_or_transient pre" and p: "readable_or_transient p"
    by simp_all
  show ?case
  proof (cases p)
    case (Inl e)
    with p have "transient e" by (simp add: readable_or_transient_def)
    with Inl Cons.IH [OF rest, of acc] show ?thesis by (simp add: proc_entry_Inl)
  next
    case (Inr j)
    with p have "info_memory_info j \<noteq> None" by (simp add: readable_or_transient_def)
    then obtain s where "proc_entry t (Inr j) = Inr s"
      by (auto simp: proc_entry_def Let_def)
    with Inr Cons.IH [OF rest, of "acc @ [s]"] show ?thesis by simp
  qed
qed

text \<open>
  Claim C9 fails on the code. \<open>psutil.process_iter\<close>, called with a list of attributes, reads
  them before the loop body runs: a process that has vanished is not delivered at all, and an
  attribute whose read was denied, or that belongs to a zombie, is delivered as \<open>None\<close> in
  \<open>proc.info\<close>. For the process table \<open>init\<close>, \<open>kthreadd\<close>, \<open>sh\<close>, where the memory
  counters of \<open>kthreadd\<close> were denied, the enumeration does not omit that process:
  \<open>pinfo['memory_info'].rss\<close> raises \<open>AttributeError\<close>, which is not one of the three
  exceptions of the handler, and the enumeration ends with that error and no snapshot at
  all. Omitting the process would have left the snapshots of the other two.
\<close>

theorem denied_memory_info_not_skipped:
  "get_all_processes_info ticking_clock 0 [Inr proc_a, Inr proc_no_mem, Inr proc_b] =
     (Inl AttributeError, 1) \<and>
   \<not> transient AttributeError \<and>
   get_all_processes_info ticking_clock 0 [Inr proc_a, Inr proc_b] =
     (Inr [\<lparr>pid = 1, name = ''init'', cpu_percent = 0, mem_rss = 4096, mem_vms = 8192,
            disk_read_bytes = 0, disk_write_bytes = 0, disk_io_total = 0,
            execution_time_s = 990\<rparr>,
           \<lparr>pid = 2, name = ''sh'', cpu_percent = 5, mem_rss = 100, mem_vms = 200,
            disk_read_bytes = 3, disk_write_bytes = 4, disk_io_total = 7,
            execution_time_s = 980\<rparr>], 1)"
  by (simp add: get_all_processes_info_def Let_def proc_entry_def proc_a_def proc_b_def
      proc_no_mem_def transient_def ticking_clock_def)

text \<open>
  The claim C6 as stated fails: with a clock that advances by one second per reading and two
  processes created at 10 and 20, the code reads the clock once (1000) and reports the ages
  990 and 980; re-reading the clock for each process, as the claim words it, would take two
  readings and report 990 and 981.
\<close>

theorem clock_read_once_counterexample:
  "get_all_processes_info ticking_clock 0 [Inr proc_a, Inr proc_b] =
     (Inr [\<lparr>pid = 1, name = ''init'', cpu_percent = 0, mem_rss = 4096, mem_vms = 8192,
            disk_read_bytes = 0, disk_write_bytes = 0, disk_io_total = 0,
            execution_time_s = 990\<rparr>,
           \<lparr>pid = 2, name = ''sh'', cpu_percent = 5, mem_rss = 100, mem_vms = 200,
            disk_read_bytes = 3, disk_write_bytes = 4, disk_io_total = 7,
            execution_time_s = 980\<rparr>], 1) \<and>
   spec_get_all_processes_info ticking_clock 0 [Inr proc_a, Inr proc_b] =
     (Inr [\<lparr>pid = 1, name = ''init'', cpu_percent = 0, mem_rss = 4096, mem_vms = 8192,
            disk_read_bytes = 0, disk_write_bytes = 0, disk_io_total = 0,
            execution_time_s = 990\<rparr>,
           \<lparr>pid = 2, name = ''sh'', cpu_percent = 5, mem_rss = 100, mem_vms = 200,
            disk_read_bytes = 3, disk_write_bytes = 4, disk_io_total = 7,
            execution_time_s = 981\<rparr>], 2)"
  by (simp add: get_all_processes_info_def spec_get_all_processes_info_def Let_def
      proc_entry_def proc_a_def proc_b_def ticking_clock_def)

text \<open>
  Claim C6, amended. For every process enumerated in a cycle, \<open>execution_time_s\<close> is the
  wall-clock time minus the creation time of the process, where the wall-clock time is read
  once, before the enumeration starts, and shared by all processes of the cycle: the
  enumeration makes exactly one clock reading, whatever the number of processes.
\<close>

theorem execution_time_single_clock_read:
  "snd (get_all_processes_info clock calls procs) = Suc calls \<and>
   (\<forall>ps. fst (get_all_processes_info clock calls procs) = Inr ps \<longrightarrow>
      list_all2 (aged_at (clock calls)) ps (infos_read procs))"
proof (intro conjI allI impI)
  show "snd (get_all_processes_info clock calls procs) = Suc calls"
    by (simp add: get_all_processes_info_def Let_def)
next
  fix ps
  assume "fst (get_all_processes_info clock calls procs) = Inr ps"
  then have "enumerate_procs (clock calls) procs [] = Inr ps"
    by (simp add: get_all_processes_info_def Let_def)
  from enumerate_procs_Inr [OF this]
  have "list_all2 (built_from (clock calls)) ps (infos_read procs)" by simp
  then show "list_all2 (aged_at (clock calls)) ps (infos_read procs)"
    by (rule list_all2_mono) (rule built_from_aged_at)
qed

lemma two_procs_result:
  "fst (get_all_processes_info ticking_clock 0 [Inr proc_a, Inr proc_b]) =
     Inr [\<lparr>pid = 1, name = ''init'', cpu_percent = 0, mem_rss = 4096, mem_vms = 8192,
            disk_read_bytes = 0, disk_write_bytes = 0, disk_io_total = 0,
            execution_time_s = 990\<rparr>,
           \<lparr>pid = 2, name = ''sh'', cpu_percent = 5, mem_rss = 100, mem_vms = 200,
            disk_read_bytes = 3, disk_write_bytes = 4, disk_io_total = 7,
            execution_time_s = 980\<rparr>]"
  by (simp add: get_all_processes_info_def Let_def
      proc_entry_def proc_a_def proc_b_def ticking_clock_def)

theorem execution_time_single_clock_read_witness:
  "fst (get_all_processes_info ticking_clock 0 [Inr proc_a, Inr proc_b]) =
     Inr [\<lparr>pid = 1, name = ''init'', cpu_percent = 0, mem_rss = 4096, mem_vms = 8192,
            disk_read_bytes = 0, disk_write_bytes = 0, disk_io_total = 0,
            execution_time_s = 990\<rparr>,
           \<lparr>pid = 2, name = ''sh'', cpu_percent = 5, mem_rss = 100, mem_vms = 200,
            disk_read_bytes = 3, disk_write_bytes = 4, disk_io_total = 7,
            execution_time_s = 980\<rparr>] \<and>
   list_all2 (aged_at (ticking_clock 0))
     [\<lparr>pid = 1, name = ''init'', cpu_percent = 0, mem_rss = 4096, mem_vms = 8192,
            disk_read_bytes = 0, disk_write_bytes = 0, disk_io_total = 0,
            execution_time_s = 990\<rparr>,
           \<lparr>pid = 2, name = ''sh'', cpu_percent = 5, mem_rss = 100, mem_vms = 200,
            disk_read_bytes = 3, disk_write_bytes = 4, disk_io_total = 7,
            execution_time_s = 980\<rparr>]
     [proc_a, proc_b] \<and>
   snd (get_all_processes_info ticking_clock 0 [Inr proc_a, Inr proc_b]) = Suc 0"
proof -
  have ir: "infos_read [Inr proc_a, Inr proc_b] = [proc_a, proc_b]"
    by (simp add: infos_read_Inr infos_read_Nil)
  from execution_time_single_clock_read [of ticking_clock 0 "[Inr proc_a, Inr proc_b]"]
    two_procs_result
  show ?thesis unfolding ir by blast
qed

subsection \<open>Ranking\<close>

lemma sorted_reverse_desc: "sorted_wrt (\<lambda>a b. key b \<le> key a) (sorted_reverse key xs)"
proof -
  have "sorted (map key (sort_key key (rev xs)))" by (rule sorted_sort_key)
  then have "sorted_wrt (\<lambda>a b. key a \<le> key b) (sort_key key (rev xs))"
    by (simp add: sorted_map)
  then show ?thesis by (simp add: sorted_reverse_def sorted_wrt_rev)
qed

lemma sorted_reverse_stable:
  "filter (\<lambda>p. key p = k) (sorted_reverse key xs) = filter (\<lambda>p. key p = k) xs"
proof -
  have "filter (\<lambda>p. key p = k) (sort_key key (rev xs)) = filter (\<lambda>p. key p = k) (rev xs)"
    by (rule sort_key_stable)
  then show ?thesis by (simp add: sorted_reverse_def rev_filter [symmetric])
qed

lemma mset_sorted_reverse: "mset (sorted_reverse key xs) = mset xs"
  by (simp add: sorted_reverse_def)

lemma length_sorted_reverse: "length (sorted_reverse key xs) = length xs"
  by (simp add: sorted_reverse_def)

lemma top_n_desc: "sorted_wrt (\<lambda>a b. key b \<le> key a) (top_n n key xs)"
  unfolding top_n_def by (rule sorted_wrt_take) (rule sorted_reverse_desc)

lemma top_n_length: "length (top_n n key xs) = min n (length xs)"
  by (simp add: top_n_def length_sorted_reverse min.commute)

lemma top_n_ties:
  "prefix (filter (\<lambda>p. key p = k) (top_n n key xs)) (filter (\<lambda>p. key p = k) xs)"
proof -
  let ?s = "sorted_reverse key xs"
  have "filter (\<lambda>p. key p = k) ?s =
      filter (\<lambda>p. key p = k) (take n ?s) @ filter (\<lambda>p. key p = k) (drop n ?s)"
    by (simp add: filter_append [symmetric])
  then have "prefix (filter (\<lambda>p. key p = k) (take n ?s)) (filter (\<lambda>p. key p = k) ?s)"
    by (metis prefixI)
  then show ?thesis by (simp add: top_n_def sorted_reverse_stable)
qed

lemma top_n_highest:
  assumes "p \<in> set xs" "p \<notin> set (top_n n key xs)" "q \<in> set (top_n n key xs)"
  shows "key p \<le> key q"
proof -
  let ?s = "sorted_reverse key xs"
  have "set ?s = set xs" using mset_sorted_reverse [of key xs] by (metis set_mset_mset)
  then have "set (take n ?s) \<union> set (drop n ?s) = set xs"
    by (metis append_take_drop_id set_append)
  with assms(1,2) have p: "p \<in> set (drop n ?s)" by (auto simp: top_n_def)
  have "sorted_wrt (\<lambda>a b. key b \<le> key a) (take n ?s @ drop n ?s)"
    using sorted_reverse_desc [of key xs] by simp
  then have "\<forall>a\<in>set (take n ?s). \<forall>b\<in>set (drop n ?s). key b \<le> key a"
    unfolding sorted_wrt_append by blast
  with p assms(3) show ?thesis by (simp add: top_n_def)
qed

lemma top_n_subset: "mset (top_n n key xs) \<subseteq># mset xs"
proof -
  let ?s = "sorted_reverse key xs"
  have "mset (take n ?s) \<subseteq># mset (take n ?s @ drop n ?s)" by (simp del: append_take_drop_id)
  then show ?thesis by (simp add: top_n_def mset_sorted_reverse)
qed

lemma five_procs_top3:
  "top_n 3 cpu_percent five_procs = [mk_proc 2 55, mk_proc 3 55, mk_proc 5 30]"
  by (simp add: top_n_def sorted_reverse_def five_procs_def mk_proc_def sort_key_def)

lemma top_n_at_most: "length (top_n n key xs) \<le> n"
  by (simp add: top_n_length)

lemma top_n_highest_all:
  "\<forall>p\<in>set xs. \<forall>q\<in>set (top_n n key xs). p \<notin> set (top_n n key xs) \<longrightarrow> key p \<le> key q"
proof (intro ballI impI)
  fix p q
  assume "p \<in> set xs" "q \<in> set (top_n n key xs)" "p \<notin> set (top_n n key xs)"
  then show "key p \<le> key q" by (simp add: top_n_highest)
qed

lemma top_n_ties_all:
  "\<forall>k. prefix (filter (\<lambda>p. key p = k) (top_n n key xs)) (filter (\<lambda>p. key p = k) xs)"
  by (intro allI) (rule top_n_ties)

lemma five_procs_pids: "map pid (top_cpu (rank_processes 3 five_procs)) = [2, 3, 5]"
  by (simp add: rank_processes_def five_procs_top3) (simp add: mk_proc_def)

text \<open>
  Claim C4. For every list of process snapshots, each of the three selections (by CPU
  percent, by resident memory, by total disk I/O) is in descending key order, has length
  \<open>min n (length procs)\<close> and so at most \<open>n\<close>, consists of snapshots of the list, holds for
  each key value the first-seen snapshots of that value in their original order, and leaves
  out only snapshots whose key is at most that of every selected one; the list itself is
  what it was. CPU percents \<open>[10, 55, 55, 2, 30]\<close> with \<open>n = 3\<close> select the second, the third
  and the fifth process.
\<close>

theorem ranking_selections:
  "(let r = rank_processes n procs in
      all_procs r = procs \<and>
      sorted_wrt (\<lambda>a b. cpu_percent b \<le> cpu_percent a) (top_cpu r) \<and>
      length (top_cpu r) = min n (length procs) \<and>
      length (top_cpu r) \<le> n \<and>
      mset (top_cpu r) \<subseteq># mset procs \<and>
      (\<forall>k. prefix (filter (\<lambda>p. cpu_percent p = k) (top_cpu r)) (filter (\<lambda>p. cpu_percent p = k) procs)) \<and>
      (\<forall>p\<in>set procs. \<forall>q\<in>set (top_cpu r). p \<notin> set (top_cpu r) \<longrightarrow> cpu_percent p \<le> cpu_percent q) \<and>
      sorted_wrt (\<lambda>a b. mem_rss b \<le> mem_rss a) (top_mem r) \<and>
      length (top_mem r) = min n (length procs) \<and>
      length (top_mem r) \<le> n \<and>
      mset (top_mem r) \<subseteq># mset procs \<and>
      (\<forall>k. prefix (filter (\<lambda>p. mem_rss p = k) (top_mem r)) (filter (\<lambda>p. mem_rss p = k) procs)) \<and>
      (\<forall>p\<in>set procs. \<forall>q\<in>set (top_mem r). p \<notin> set (top_mem r) \<longrightarrow> mem_rss p \<le> mem_rss q) \<and>
      sorted_wrt (\<lambda>a b. disk_io_total b \<le> disk_io_total a) (top_disk r) \<and>
      length (top_disk r) = min n (length procs) \<and>
      length (top_disk r) \<le> n \<and>
      mset (top_disk r) \<subseteq># mset procs \<and>
      (\<forall>k. prefix (filter (\<lambda>p. disk_io_total p = k) (top_disk r)) (filter (\<lambda>p. disk_io_total p = k) procs)) \<and>
      (\<forall>p\<in>set procs. \<forall>q\<in>set (top_disk r). p \<notin> set (top_disk r) \<longrightarrow> disk_io_total p \<le> disk_io_total q)) \<and>
   map pid (top_cpu (rank_processes 3 five_procs)) = [2, 3, 5]"
proof -
  have cpu: "top_cpu (rank_processes n procs) = top_n n cpu_percent procs"
    by (simp add: rank_processes_def)
  have mem: "top_mem (rank_processes n procs) = top_n n mem_rss procs"
    by (simp add: rank_processes_def)
  have disk: "top_disk (rank_processes n procs) = top_n n disk_io_total procs"
    by (simp add: rank_processes_def)
  have a: "all_procs (rank_processes n procs) = procs" by (simp add: rank_processes_def)
  have "let r = rank_processes n procs in
      all_procs r = procs \<and>
      sorted_wrt (\<lambda>a b. cpu_percent b \<le> cpu_percent a) (top_cpu r) \<and>
      length (top_cpu r) = min n (length procs) \<and>
      length (top_cpu r) \<le> n \<and>
      mset (top_cpu r) \<subseteq># mset procs \<and>
      (\<forall>k. prefix (filter (\<lambda>p. cpu_percent p = k) (top_cpu r)) (filter (\<lambda>p. cpu_percent p = k) procs)) \<and>
      (\<forall>p\<in>set procs. \<forall>q\<in>set (top_cpu r). p \<notin> set (top_cpu r) \<longrightarrow> cpu_percent p \<le> cpu_percent q) \<and>
      sorted_wrt (\<lambda>a b. mem_rss b \<le> mem_rss a) (top_mem r) \<and>
      length (top_mem r) = min n (length procs) \<and>
      length (top_mem r) \<le> n \<and>
      mset (top_mem r) \<subseteq># mset procs \<and>
      (\<forall>k. prefix (filter (\<lambda>p. mem_rss p = k) (top_mem r)) (filter (\<lambda>p. mem_rss p = k) procs)) \<and>
      (\<forall>p\<in>set procs. \<forall>q\<in>set (top_mem r). p \<notin> set (top_mem r) \<longrightarrow> mem_rss p \<le> mem_rss q) \<and>
      sorted_wrt (\<lambda>a b. disk_io_total b \<le> disk_io_total a) (top_disk r) \<and>
      length (top_disk r) = min n (length procs) \<and>
      length (top_disk r) \<le> n \<and>
      mset (top_disk r) \<subseteq># mset procs \<and>
      (\<forall>k. prefix (filter (\<lambda>p. disk_io_total p = k) (top_disk r)) (filter (\<lambda>p. disk_io_total p = k) procs)) \<and>
      (\<forall>p\<in>set procs. \<forall>q\<in>set (top_disk r). p \<notin> set (top_disk r) \<longrightarrow> disk_io_total p \<le> disk_io_total q)"
    unfolding Let_def cpu mem disk a
    by (intro conjI refl top_n_desc top_n_length top_n_at_most top_n_subset top_n_ties_all
        top_n_highest_all)
  then show ?thesis using five_procs_pids by (rule conjI)
qed

theorem ranking_selections_witness:
  "mk_proc 1 10 \<in> set five_procs \<and>
   mk_proc 5 30 \<in> set (top_cpu (rank_processes 3 five_procs)) \<and>
   mk_proc 1 10 \<notin> set (top_cpu (rank_processes 3 five_procs)) \<and>
   cpu_percent (mk_proc 1 10) \<le> cpu_percent (mk_proc 5 30)"
proof -
  have sel: "top_cpu (rank_processes 3 five_procs) = [mk_proc 2 55, mk_proc 3 55, mk_proc 5 30]"
    by (simp add: rank_processes_def five_procs_top3)
  have 1: "mk_proc 1 10 \<in> set five_procs" by (simp add: five_procs_def)
  have 2: "mk_proc 5 30 \<in> set (top_cpu (rank_processes 3 five_procs))" by (simp add: sel)
  have 3: "mk_proc 1 10 \<notin> set (top_cpu (rank_processes 3 five_procs))"
    by (simp add: sel mk_proc_def)
  have "\<forall>p\<in>set five_procs. \<forall>q\<in>set (top_cpu (rank_processes 3 five_procs)).
      p \<notin> set (top_cpu (rank_processes 3 five_procs)) \<longrightarrow> cpu_percent p \<le> cpu_percent q"
    using ranking_selections [of 3 five_procs] unfolding Let_def by (elim conjE) assumption
  with 1 2 3 have "cpu_percent (mk_proc 1 10) \<le> cpu_percent (mk_proc 5 30)" by blast
  with 1 2 3 show ?thesis by (intro conjI)
qed

end
